theory Spec2Isabelle
  imports Complex_Main "HOL-Library.Word"
begin

unbundle bit_operations_syntax

section \<open>The platform: strings, TextEncoder, TextDecoder, Uint8Array\<close>

text \<open>
  A JavaScript string is a sequence of UTF-16 code units. A \<open>Uint8Array\<close> is a sequence of
  8-bit values. A plain \<open>number\<close> that holds a bit, a byte, a length or an index is a
  natural number; on the values that occur here (below \<open>2 ^ 31\<close>) the operators
  \<open>>>\<close>, \<open><<\<close>, \<open>&\<close>, \<open>|\<close> and \<open>^\<close> of the source agree with \<open>drop_bit\<close>,
  \<open>push_bit\<close>, \<open>AND\<close>, \<open>OR\<close> and \<open>XOR\<close> on \<open>nat\<close>.
\<close>

type_synonym jsstring = "16 word list"
type_synonym Uint8Array = "8 word list"

definition is_high_surrogate :: "16 word \<Rightarrow> bool" where
  "is_high_surrogate u \<longleftrightarrow> 0xD800 \<le> u \<and> u \<le> 0xDBFF"

definition is_low_surrogate :: "16 word \<Rightarrow> bool" where
  "is_low_surrogate u \<longleftrightarrow> 0xDC00 \<le> u \<and> u \<le> 0xDFFF"

definition is_surrogate :: "16 word \<Rightarrow> bool" where
  "is_surrogate u \<longleftrightarrow> is_high_surrogate u \<or> is_low_surrogate u"

text \<open>
  \<open>TextEncoder.encode\<close> takes a \<open>USVString\<close>: the code units are first read as Unicode
  scalar values, a surrogate pair giving one supplementary code point and every unpaired
  surrogate being replaced by U+FFFD.
\<close>

fun to_scalar_values :: "jsstring \<Rightarrow> nat list" where
  "to_scalar_values [] = []"
| "to_scalar_values [u] = [if is_surrogate u then 0xFFFD else unat u]"
| "to_scalar_values (u # v # us) =
     (if is_high_surrogate u \<and> is_low_surrogate v
      then (0x10000 + (unat u - 0xD800) * 0x400 + (unat v - 0xDC00)) # to_scalar_values us
      else (if is_surrogate u then 0xFFFD else unat u) # to_scalar_values (v # us))"

text \<open>The UTF-8 encoder of the Encoding Standard, one scalar value at a time.\<close>

definition utf8_bytes :: "nat \<Rightarrow> Uint8Array" where
  "utf8_bytes cp =
     (if cp < 0x80 then [of_nat cp]
      else if cp < 0x800 then [of_nat (0xC0 + cp div 0x40), of_nat (0x80 + cp mod 0x40)]
      else if cp < 0x10000 then
        [of_nat (0xE0 + cp div 0x1000), of_nat (0x80 + cp div 0x40 mod 0x40),
         of_nat (0x80 + cp mod 0x40)]
      else
        [of_nat (0xF0 + cp div 0x40000), of_nat (0x80 + cp div 0x1000 mod 0x40),
         of_nat (0x80 + cp div 0x40 mod 0x40), of_nat (0x80 + cp mod 0x40)])"

definition TextEncoder_encode :: "jsstring \<Rightarrow> Uint8Array" where
  "TextEncoder_encode s = concat (map utf8_bytes (to_scalar_values s))"

text \<open>
  The UTF-8 decoder of the Encoding Standard in fatal mode. Its state is the code point
  under construction, the number of continuation bytes still needed and the bounds of
  the next continuation byte; \<open>None\<close> is the \<open>TypeError\<close> that fatal mode throws.
\<close>

record utf8_decoder =
  code_point :: nat
  bytes_needed :: nat
  lower_boundary :: nat
  upper_boundary :: nat

definition utf8_initial :: utf8_decoder where
  "utf8_initial =
     \<lparr>code_point = 0, bytes_needed = 0, lower_boundary = 0x80, upper_boundary = 0xBF\<rparr>"

fun utf8_run :: "utf8_decoder \<Rightarrow> Uint8Array \<Rightarrow> nat list \<Rightarrow> nat list option" where
  "utf8_run d [] out = (if bytes_needed d \<noteq> 0 then None else Some out)"
| "utf8_run d (byte # rest) out =
     (let b = unat byte in
      if bytes_needed d = 0 then
        (if b \<le> 0x7F then utf8_run d rest (out @ [b])
         else if 0xC2 \<le> b \<and> b \<le> 0xDF then
           utf8_run (d\<lparr>bytes_needed := 1, code_point := b mod 0x20\<rparr>) rest out
         else if 0xE0 \<le> b \<and> b \<le> 0xEF then
           utf8_run (d\<lparr>lower_boundary := (if b = 0xE0 then 0xA0 else lower_boundary d),
                        upper_boundary := (if b = 0xED then 0x9F else upper_boundary d),
                        bytes_needed := 2, code_point := b mod 0x10\<rparr>) rest out
         else if 0xF0 \<le> b \<and> b \<le> 0xF4 then
           utf8_run (d\<lparr>lower_boundary := (if b = 0xF0 then 0x90 else lower_boundary d),
                        upper_boundary := (if b = 0xF4 then 0x8F else upper_boundary d),
                        bytes_needed := 3, code_point := b mod 0x08\<rparr>) rest out
         else None)
      else if b < lower_boundary d \<or> upper_boundary d < b then None
      else
        (let cp = code_point d * 0x40 + b mod 0x40 in
         if bytes_needed d = 1 then utf8_run utf8_initial rest (out @ [cp])
         else utf8_run (d\<lparr>lower_boundary := 0x80, upper_boundary := 0xBF,
                           code_point := cp, bytes_needed := bytes_needed d - 1\<rparr>) rest out))"

definition utf8_decode :: "Uint8Array \<Rightarrow> nat list option" where
  "utf8_decode bytes = utf8_run utf8_initial bytes []"

text \<open>
  A \<open>TextDecoder\<close> built without \<open>ignoreBOM\<close> drops one leading U+FEFF from its output.
  The scalar values are then written as UTF-16 code units.
\<close>

fun strip_bom :: "nat list \<Rightarrow> nat list" where
  "strip_bom [] = []"
| "strip_bom (cp # cps) = (if cp = 0xFEFF then cps else cp # cps)"

definition utf16_units :: "nat \<Rightarrow> jsstring" where
  "utf16_units cp =
     (if cp < 0x10000 then [of_nat cp]
      else [of_nat (0xD800 + (cp - 0x10000) div 0x400),
            of_nat (0xDC00 + (cp - 0x10000) mod 0x400)])"

definition TextDecoder_decode :: "Uint8Array \<Rightarrow> jsstring option" where
  "TextDecoder_decode bytes =
     (case utf8_decode bytes of
        None \<Rightarrow> None
      | Some cps \<Rightarrow> Some (concat (map utf16_units (strip_bom cps))))"

text \<open>\<open>new Uint8Array(numbers)\<close> keeps each number modulo 256.\<close>

definition Uint8Array_from :: "nat list \<Rightarrow> Uint8Array" where
  "Uint8Array_from xs = map of_nat xs"

text \<open>\<open>xs.slice(a, b)\<close> for non-negative \<open>a\<close> and \<open>b\<close>.\<close>

definition slice :: "'a list \<Rightarrow> nat \<Rightarrow> nat \<Rightarrow> 'a list" where
  "slice xs a b = take (b - a) (drop a xs)"

text \<open>\<open>String.prototype.isWellFormed\<close>: no unpaired surrogate.\<close>

fun well_formed :: "jsstring \<Rightarrow> bool" where
  "well_formed [] = True"
| "well_formed [u] = (\<not> is_surrogate u)"
| "well_formed (u # v # us) =
     (if is_high_surrogate u then is_low_surrogate v \<and> well_formed us
      else \<not> is_low_surrogate u \<and> well_formed (v # us))"

text \<open>The Unicode scalar values: the code points that are not surrogates.\<close>

definition scalar_value :: "nat \<Rightarrow> bool" where
  "scalar_value cp \<longleftrightarrow> cp < 0xD800 \<or> (0xE000 \<le> cp \<and> cp < 0x110000)"

section \<open>Constants\<close>

definition PREAMBLE :: "nat list" where
  "PREAMBLE = [1, 0, 1, 0, 1, 0, 1, 0]"

definition START_MARKER :: "nat list" where
  "START_MARKER = [1, 1, 1, 1, 1, 1, 1, 1]"

definition MAX_MESSAGE_BYTES :: nat where
  "MAX_MESSAGE_BYTES = 200"

definition MAX_BITS_TIMEOUT :: nat where
  "MAX_BITS_TIMEOUT = 2000"

definition GAP_MS :: real where
  "GAP_MS = 300"

definition GAP_THRESHOLD_MULTIPLIER :: real where
  "GAP_THRESHOLD_MULTIPLIER = 0.6"

definition PARTIAL_DECODE_MIN_BITS :: nat where
  "PARTIAL_DECODE_MIN_BITS = 32"

section \<open>Protocol\<close>

datatype error = MessageTooLong

text \<open>\<open>byteToBits\<close>: the loop runs \<open>i\<close> from 7 down to 0 and pushes \<open>(byte >> i) & 1\<close>.\<close>

definition byteToBits :: "nat \<Rightarrow> nat list" where
  "byteToBits byte = map (\<lambda>i. drop_bit i byte AND 1) [7, 6, 5, 4, 3, 2, 1, 0]"

definition bitsToNumber :: "nat list \<Rightarrow> nat" where
  "bitsToNumber bits = foldl (\<lambda>acc bit. push_bit 1 acc OR bit) 0 bits"

text \<open>\<open>calculateChecksum\<close> reads the bytes of a \<open>Uint8Array\<close> as numbers and XORs them.\<close>

definition calculateChecksum :: "Uint8Array \<Rightarrow> nat" where
  "calculateChecksum bytes = foldl (\<lambda>checksum byte. checksum XOR unat byte) 0 bytes"

definition getByteLength :: "jsstring \<Rightarrow> nat" where
  "getByteLength message = length (TextEncoder_encode message)"

definition canEncode :: "jsstring \<Rightarrow> bool" where
  "canEncode message \<longleftrightarrow> getByteLength message \<le> MAX_MESSAGE_BYTES"

definition calculateBitCount :: "jsstring \<Rightarrow> nat" where
  "calculateBitCount message = 8 + 8 + 8 + length (TextEncoder_encode message) * 8 + 8"

definition encode :: "jsstring \<Rightarrow> error + nat list" where
  "encode message =
     (let bytes = TextEncoder_encode message in
      if length bytes > MAX_MESSAGE_BYTES then Inl MessageTooLong
      else Inr (PREAMBLE @ START_MARKER @ byteToBits (length bytes)
                @ concat (map (\<lambda>byte. byteToBits (unat byte)) bytes)
                @ byteToBits (calculateChecksum bytes)))"

text \<open>
  \<open>findStartMarker\<close>: the outer loop over \<open>i\<close> with \<open>i <= bits.length - 8\<close>; the inner loop
  is the test that the eight entries from \<open>i\<close> are all 1. \<open>None\<close> stands for \<open>-1\<close>.
\<close>

definition allOnes :: "nat list \<Rightarrow> nat \<Rightarrow> bool" where
  "allOnes bits i \<longleftrightarrow> list_all (\<lambda>j. bits ! (i + j) = 1) [0, 1, 2, 3, 4, 5, 6, 7]"

function findStartMarker_loop :: "nat list \<Rightarrow> nat \<Rightarrow> nat option" where
  "findStartMarker_loop bits i =
     (if i + 8 \<le> length bits
      then (if allOnes bits i then Some i else findStartMarker_loop bits (i + 1))
      else None)"
  by pat_completeness auto
termination
  by (relation "measure (\<lambda>(bits, i). length bits - i)") auto

definition findStartMarker :: "nat list \<Rightarrow> nat option" where
  "findStartMarker bits = findStartMarker_loop bits 0"

text \<open>
  The loop of \<open>decode\<close> that reads the data bytes: \<open>k\<close> counts the iterations that remain,
  \<open>dataBytes\<close> and \<open>bitIndex\<close> are the loop's variables. \<open>None\<close> is the \<open>return null\<close> inside.
\<close>

fun readDataBytes :: "nat list \<Rightarrow> nat \<Rightarrow> nat list \<Rightarrow> nat \<Rightarrow> (nat list \<times> nat) option" where
  "readDataBytes bits 0 dataBytes bitIndex = Some (dataBytes, bitIndex)"
| "readDataBytes bits (Suc k) dataBytes bitIndex =
     (let byteBits = slice bits bitIndex (bitIndex + 8) in
      if length byteBits < 8 then None
      else readDataBytes bits k (dataBytes @ [bitsToNumber byteBits]) (bitIndex + 8))"

definition decode :: "nat list \<Rightarrow> jsstring option" where
  "decode bits =
     (case findStartMarker bits of
        None \<Rightarrow> None
      | Some markerIndex \<Rightarrow>
          (let dataStart = markerIndex + 8;
               lengthBits = slice bits dataStart (dataStart + 8) in
           if length lengthBits < 8 then None
           else
             (let dataLength = bitsToNumber lengthBits in
              if dataLength > MAX_MESSAGE_BYTES \<or> dataLength = 0 then None
              else
                (case readDataBytes bits dataLength [] (dataStart + 8) of
                   None \<Rightarrow> None
                 | Some (dataBytes, bitIndex) \<Rightarrow>
                     (let checksumBits = slice bits bitIndex (bitIndex + 8) in
                      if length checksumBits < 8 then None
                      else
                        (let receivedChecksum = bitsToNumber checksumBits;
                             calculatedChecksum = calculateChecksum (Uint8Array_from dataBytes) in
                         if receivedChecksum \<noteq> calculatedChecksum then None
                         else TextDecoder_decode (Uint8Array_from dataBytes)))))))"

text \<open>
  Modelled from the spec: \<open>Protocol.decodePartial\<close>, which \<open>bit-receiver.ts\<close> and
  \<open>color-channel.ts\<close> call and which the \<open>Protocol\<close> class under \<open>src/\<close> does not
  define. The spec: nothing below 32 bits or without a marker and a valid length; otherwise the
  complete data bytes that are present are decoded, the checksum is ignored, and the result is
  the text of the longest prefix of these bytes that is UTF-8 (so a trailing incomplete
  sequence is trimmed).
\<close>

fun utf8_preview :: "Uint8Array \<Rightarrow> nat \<Rightarrow> jsstring" where
  "utf8_preview bytes 0 = []"
| "utf8_preview bytes (Suc n) =
     (case TextDecoder_decode (take (Suc n) bytes) of
        Some text \<Rightarrow> text
      | None \<Rightarrow> utf8_preview bytes n)"

definition availableBytes :: "nat list \<Rightarrow> nat \<Rightarrow> nat \<Rightarrow> nat list" where
  "availableBytes bits bitIndex dataLength =
     map (\<lambda>k. bitsToNumber (slice bits (bitIndex + 8 * k) (bitIndex + 8 * k + 8)))
       [0..<min dataLength ((length bits - bitIndex) div 8)]"

definition decodePartial :: "nat list \<Rightarrow> jsstring option" where
  "decodePartial bits =
     (if length bits < 32 then None
      else
        (case findStartMarker bits of
           None \<Rightarrow> None
         | Some markerIndex \<Rightarrow>
             (let dataStart = markerIndex + 8;
                  lengthBits = slice bits dataStart (dataStart + 8) in
              if length lengthBits < 8 then None
              else
                (let dataLength = bitsToNumber lengthBits in
                 if dataLength > MAX_MESSAGE_BYTES \<or> dataLength = 0 then None
                 else
                   (let dataBytes = Uint8Array_from (availableBytes bits (dataStart + 8) dataLength)
                    in Some (utf8_preview dataBytes (length dataBytes)))))))"

section \<open>GridProtocol\<close>

text \<open>A grid frame is the two-element array \<open>[highByte, lowByte]\<close>.\<close>

type_synonym frame = "nat \<times> nat"

definition GridProtocol_calculateChecksum :: "Uint8Array \<Rightarrow> nat" where
  "GridProtocol_calculateChecksum bytes = foldl (\<lambda>checksum byte. checksum XOR unat byte) 0 bytes"

text \<open>
  The loop of \<open>GridProtocol.encode\<close> that cuts the payload into frames, \<open>i\<close> advancing by 2.
  The payload was padded to even length just before, so \<open>payload[i + 1]\<close> is in range.
\<close>

function splitFrames :: "nat list \<Rightarrow> nat \<Rightarrow> frame list \<Rightarrow> frame list" where
  "splitFrames payload i frames =
     (if i < length payload
      then splitFrames payload (i + 2) (frames @ [(payload ! i, payload ! (i + 1))])
      else frames)"
  by pat_completeness auto
termination
  by (relation "measure (\<lambda>(payload, i, frames). length payload - i)") auto

definition GridProtocol_encode :: "jsstring \<Rightarrow> error + frame list" where
  "GridProtocol_encode message =
     (let data = TextEncoder_encode message in
      if length data > MAX_MESSAGE_BYTES then Inl MessageTooLong
      else
        (let payload = [length data] @ map unat data @ [GridProtocol_calculateChecksum data];
             payload = (if length payload mod 2 \<noteq> 0 then payload @ [0x00] else payload)
         in Inr (splitFrames payload 0 [])))"

definition GridProtocol_decode :: "frame list \<Rightarrow> jsstring option" where
  "GridProtocol_decode frames =
     (if length frames = 0 then None
      else
        (let bytes = concat (map (\<lambda>frame. [fst frame, snd frame]) frames);
             dataLength = bytes ! 0 in
         if dataLength = 0 \<or> dataLength > MAX_MESSAGE_BYTES then None
         else
           (let minBytes = dataLength + 2;
                expectedBytes = (if minBytes mod 2 = 0 then minBytes else minBytes + 1) in
            if length bytes < expectedBytes then None
            else
              (let data = slice bytes 1 (1 + dataLength);
                   receivedChecksum = bytes ! (1 + dataLength);
                   calculatedChecksum = GridProtocol_calculateChecksum (Uint8Array_from data) in
               if receivedChecksum \<noteq> calculatedChecksum then None
               else TextDecoder_decode (Uint8Array_from data)))))"

definition frameToCells :: "frame \<Rightarrow> nat list" where
  "frameToCells frame =
     (let highByte = fst frame; lowByte = snd frame in
      map (\<lambda>i. drop_bit i highByte AND 1) [7, 6, 5, 4, 3, 2, 1, 0]
      @ map (\<lambda>i. drop_bit i lowByte AND 1) [7, 6, 5, 4, 3, 2, 1, 0])"

text \<open>\<open>cells[i] ? 1 : 0\<close>: a missing entry is \<open>undefined\<close> and counts as 0, as the entry 0 does.\<close>

definition cellBit :: "nat list \<Rightarrow> nat \<Rightarrow> nat" where
  "cellBit cells i = (if i < length cells \<and> cells ! i \<noteq> 0 then 1 else 0)"

definition cellsToFrame :: "nat list \<Rightarrow> frame" where
  "cellsToFrame cells =
     (let highByte = foldl (\<lambda>highByte i. push_bit 1 highByte OR cellBit cells i) 0
                       [0, 1, 2, 3, 4, 5, 6, 7];
          lowByte = foldl (\<lambda>lowByte i. push_bit 1 lowByte OR cellBit cells i) 0
                       [8, 9, 10, 11, 12, 13, 14, 15]
      in (highByte, lowByte))"

section \<open>The receivers\<close>

datatype ReceiverState = Idle | Pilot | Gap | Bits

datatype ReceiverStatus =
    StatusIdle
  | StatusPilot
  | StatusGap
  | StatusReceiving real "jsstring option"
  | StatusSuccess
  | StatusError string

datatype ReceiverErrorType = Checksum | Timeout | Permission | Decode

text \<open>A call of one of the three callbacks; a method returns the calls it made, in order.\<close>

datatype callback =
    OnStatusChange ReceiverStatus
  | OnMessage jsstring
  | OnError ReceiverErrorType string

record BitReceiverConfig =
  bitMs :: real
  guardMs :: real
  gapMs :: "real option"

record BitReceiver =
  state :: ReceiverState
  bits :: "nat list"
  gapStartTime :: real
  lastBitTime :: real

definition bitInterval :: "BitReceiverConfig \<Rightarrow> real" where
  "bitInterval config = bitMs config + guardMs config"

definition gapDuration :: "BitReceiverConfig \<Rightarrow> real" where
  "gapDuration config = (case gapMs config of Some g \<Rightarrow> g | None \<Rightarrow> GAP_MS)"

definition reset :: "BitReceiver \<Rightarrow> BitReceiver" where
  "reset r = r\<lparr>state := Idle, bits := [], gapStartTime := 0, lastBitTime := 0\<rparr>"

definition handleIdleState :: "bool \<Rightarrow> BitReceiver \<Rightarrow> BitReceiver \<times> callback list" where
  "handleIdleState detectPilot r =
     (if detectPilot then (r\<lparr>state := Pilot\<rparr>, [OnStatusChange StatusPilot]) else (r, []))"

definition handlePilotState :: "bool \<Rightarrow> real \<Rightarrow> BitReceiver \<Rightarrow> BitReceiver \<times> callback list" where
  "handlePilotState detectPilot now r =
     (if \<not> detectPilot then (r\<lparr>state := Gap, gapStartTime := now\<rparr>, [OnStatusChange StatusGap])
      else (r, []))"

definition handleGapState ::
  "BitReceiverConfig \<Rightarrow> real \<Rightarrow> BitReceiver \<Rightarrow> BitReceiver \<times> callback list" where
  "handleGapState config now r =
     (let elapsed = now - gapStartTime r in
      if elapsed \<ge> gapDuration config * GAP_THRESHOLD_MULTIPLIER
      then (r\<lparr>state := Bits, bits := [], lastBitTime := now\<rparr>,
            [OnStatusChange (StatusReceiving 0 None)])
      else (r, []))"

definition tryDecode :: "BitReceiver \<Rightarrow> BitReceiver \<times> callback list" where
  "tryDecode r =
     (case decode (bits r) of
        Some message \<Rightarrow>
          (reset r, [OnStatusChange StatusSuccess, OnMessage message, OnStatusChange StatusIdle])
      | None \<Rightarrow> (r, []))"

definition handleTimeout :: "BitReceiver \<Rightarrow> BitReceiver \<times> callback list" where
  "handleTimeout r =
     (reset r,
      [OnStatusChange (StatusError ''timeout''),
       OnError Timeout ''Receive timeout: too many bits without valid message'',
       OnStatusChange StatusIdle])"

text \<open>
  \<open>handleBitsState\<close>. The sample \<open>detectBit\<close> is what \<open>config.detectBit()\<close> returns when it is
  called (\<open>None\<close> for \<open>null\<close>). \<open>Protocol.decodePartial\<close> is not defined under \<open>src/\<close>
  and is a parameter here; its result is \<open>None\<close> for \<open>null\<close> and the \<open>text\<close> field
  otherwise, and an empty text is falsy.
\<close>

definition handleBitsState ::
  "BitReceiverConfig \<Rightarrow> (nat list \<Rightarrow> jsstring option) \<Rightarrow> nat option \<Rightarrow> real \<Rightarrow> BitReceiver
   \<Rightarrow> BitReceiver \<times> callback list" where
  "handleBitsState config partialDecoder detectBit now r =
     (let elapsed = now - lastBitTime r in
      if elapsed \<ge> bitInterval config then
        (case detectBit of
           None \<Rightarrow> (r, [])
         | Some b \<Rightarrow>
             (let r1 = r\<lparr>bits := bits r @ [b], lastBitTime := now\<rparr>;
                  minBits = 24 + 8;
                  progress = min 1 (real (length (bits r1)) / real minBits);
                  partialText =
                    (if length (bits r1) \<ge> PARTIAL_DECODE_MIN_BITS
                     then (case partialDecoder (bits r1) of
                             Some text \<Rightarrow> if text \<noteq> [] then Some text else None
                           | None \<Rightarrow> None)
                     else None);
                  out1 = [OnStatusChange (StatusReceiving progress partialText)];
                  (r2, out2) = (if length (bits r1) \<ge> 24 then tryDecode r1 else (r1, []));
                  (r3, out3) = (if length (bits r2) > MAX_BITS_TIMEOUT then handleTimeout r2
                                else (r2, []))
              in (r3, out1 @ out2 @ out3)))
      else (r, []))"

text \<open>
  The status that \<open>handleBitsState\<close> reports after it has pushed a bit, as a function of the
  buffer: the progress and the partial text.
\<close>

definition receivingStatus :: "(nat list \<Rightarrow> jsstring option) \<Rightarrow> nat list \<Rightarrow> callback" where
  "receivingStatus partialDecoder bs =
     OnStatusChange (StatusReceiving (min 1 (real (length bs) / real (24 + 8)))
       (if length bs \<ge> PARTIAL_DECODE_MIN_BITS
        then (case partialDecoder bs of
                Some text \<Rightarrow> if text \<noteq> [] then Some text else None
              | None \<Rightarrow> None)
        else None))"

definition processFrame ::
  "BitReceiverConfig \<Rightarrow> (nat list \<Rightarrow> jsstring option) \<Rightarrow> bool \<Rightarrow> nat option \<Rightarrow> real
   \<Rightarrow> BitReceiver \<Rightarrow> BitReceiver \<times> callback list" where
  "processFrame config partialDecoder detectPilot detectBit now r =
     (case state r of
        Idle \<Rightarrow> handleIdleState detectPilot r
      | Pilot \<Rightarrow> handlePilotState detectPilot now r
      | Gap \<Rightarrow> handleGapState config now r
      | Bits \<Rightarrow> handleBitsState config partialDecoder detectBit now r)"

text \<open>
  \<open>poll\<close> runs \<open>processFrame\<close> once per animation frame while the receiver is running. A tick
  is what one frame reads from its environment: the clock, \<open>detectPilot()\<close> and
  \<open>detectBit()\<close>.
\<close>

type_synonym tick = "real \<times> bool \<times> nat option"

fun poll ::
  "BitReceiverConfig \<Rightarrow> (nat list \<Rightarrow> jsstring option) \<Rightarrow> tick list \<Rightarrow> BitReceiver
   \<Rightarrow> BitReceiver \<times> callback list" where
  "poll config partialDecoder [] r = (r, [])"
| "poll config partialDecoder ((now, detectPilot, detectBit) # ticks) r =
     (let (r1, out1) = processFrame config partialDecoder detectPilot detectBit now r;
          (r2, out2) = poll config partialDecoder ticks r1
      in (r2, out1 @ out2))"

text \<open>Ticks that each come at least one bit interval after the one before.\<close>

fun spaced :: "real \<Rightarrow> real \<Rightarrow> tick list \<Rightarrow> bool" where
  "spaced interval t [] = True"
| "spaced interval t ((now, detectPilot, detectBit) # ticks) =
     (now - t \<ge> interval \<and> spaced interval now ticks)"

record ManualBitReceiver =
  m_state :: ReceiverState
  m_bits :: "nat list"

definition Manual_addBit :: "nat \<Rightarrow> ManualBitReceiver \<Rightarrow> ManualBitReceiver" where
  "Manual_addBit b m = m\<lparr>m_bits := m_bits m @ [b]\<rparr>"

definition Manual_clearBits :: "ManualBitReceiver \<Rightarrow> ManualBitReceiver" where
  "Manual_clearBits m = m\<lparr>m_bits := []\<rparr>"

definition Manual_processPilotDetected ::
  "bool \<Rightarrow> ManualBitReceiver \<Rightarrow> ManualBitReceiver \<times> callback list" where
  "Manual_processPilotDetected detected m =
     (if m_state m = Idle \<and> detected then (m\<lparr>m_state := Pilot\<rparr>, [OnStatusChange StatusPilot])
      else if m_state m = Pilot \<and> \<not> detected then (m\<lparr>m_state := Gap\<rparr>, [OnStatusChange StatusGap])
      else (m, []))"

definition Manual_startBitCollection :: "ManualBitReceiver \<Rightarrow> ManualBitReceiver \<times> callback list" where
  "Manual_startBitCollection m =
     (if m_state m = Gap
      then (m\<lparr>m_state := Bits, m_bits := []\<rparr>, [OnStatusChange (StatusReceiving 0 None)])
      else (m, []))"

definition Manual_reset :: "ManualBitReceiver \<Rightarrow> ManualBitReceiver \<times> callback list" where
  "Manual_reset m = (m\<lparr>m_state := Idle, m_bits := []\<rparr>, [OnStatusChange StatusIdle])"

definition Manual_tryDecode :: "ManualBitReceiver \<Rightarrow> ManualBitReceiver \<times> callback list" where
  "Manual_tryDecode m =
     (case decode (m_bits m) of
        Some message \<Rightarrow>
          (let (m', out) = Manual_reset m
           in (m', [OnStatusChange StatusSuccess, OnMessage message] @ out))
      | None \<Rightarrow>
          (m, [OnStatusChange (StatusError ''decode failed''),
               OnError Checksum ''Checksum verification failed'']))"

declare findStartMarker_loop.simps [simp del]
declare splitFrames.simps [simp del]

section \<open>Bits and bytes\<close>

lemma or_bit: "b \<le> 1 \<Longrightarrow> acc * 2 OR b = acc * 2 + (b::nat)"
proof -
  assume "b \<le> 1"
  then consider "b = 0" | "b = Suc 0" by linarith
  then show ?thesis
    by cases (simp_all add: or_Suc_0_eq)
qed

lemma shift_or_foldl:
  "\<forall>b\<in>set bs. b \<le> 1 \<Longrightarrow>
   foldl (\<lambda>acc bit. push_bit 1 acc OR bit) (a::nat) bs = foldl (\<lambda>acc bit. acc * 2 + bit) a bs"
  by (induction bs arbitrary: a) (simp_all add: or_bit)

lemma msb_first_foldl:
  "foldl (\<lambda>acc bit. acc * 2 + bit) (a::nat) (map (\<lambda>i. b div 2 ^ i mod 2) (rev [0..<n]))
   = a * 2 ^ n + b mod 2 ^ n"
proof (induction n arbitrary: a)
  case 0
  show ?case by simp
next
  case (Suc n)
  have "b mod (2 ^ n * 2) = 2 ^ n * (b div 2 ^ n mod 2) + b mod 2 ^ n"
    by (rule mod_mult2_eq)
  then have h: "b mod 2 ^ Suc n = 2 ^ n * (b div 2 ^ n mod 2) + b mod 2 ^ n"
    by (simp add: mult.commute)
  have "foldl (\<lambda>acc bit. acc * 2 + bit) a (map (\<lambda>i. b div 2 ^ i mod 2) (rev [0..<Suc n]))
        = foldl (\<lambda>acc bit. acc * 2 + bit) (a * 2 + b div 2 ^ n mod 2)
            (map (\<lambda>i. b div 2 ^ i mod 2) (rev [0..<n]))"
    by simp
  also have "\<dots> = (a * 2 + b div 2 ^ n mod 2) * 2 ^ n + b mod 2 ^ n"
    by (rule Suc.IH)
  also have "\<dots> = a * 2 ^ Suc n + b mod 2 ^ Suc n"
    unfolding h by (simp add: algebra_simps)
  finally show ?case .
qed

lemma byteToBits_alt: "byteToBits b = map (\<lambda>i. b div 2 ^ i mod 2) (rev [0..<8])"
  by (simp add: byteToBits_def and_one_eq drop_bit_eq_div upt_rec)

lemma byteToBits_length: "length (byteToBits b) = 8"
  by (simp add: byteToBits_def)

lemma byteToBits_bits: "x \<in> set (byteToBits b) \<Longrightarrow> x \<le> 1"
  by (auto simp: byteToBits_def and_one_eq)

lemma bitsToNumber_byteToBits: "b < 256 \<Longrightarrow> bitsToNumber (byteToBits b) = b"
proof -
  assume b: "b < 256"
  have "bitsToNumber (byteToBits b) = foldl (\<lambda>acc bit. acc * 2 + bit) 0 (byteToBits b)"
    unfolding bitsToNumber_def using byteToBits_bits by (intro shift_or_foldl) blast
  also have "\<dots> = b mod 2 ^ 8"
    unfolding byteToBits_alt msb_first_foldl by simp
  finally show ?thesis using b by simp
qed

lemma xor_lt_256: "a < 256 \<Longrightarrow> b < 256 \<Longrightarrow> a XOR b < (256::nat)"
proof -
  assume a: "a < 256" and b: "b < 256"
  have "take_bit 8 a = a" "take_bit 8 b = b"
    using a b by (simp_all add: take_bit_nat_eq_self_iff)
  then have "take_bit 8 (a XOR b) = a XOR b"
    by simp
  then have "a XOR b < 2 ^ 8"
    by (simp only: take_bit_nat_eq_self_iff)
  then show ?thesis by simp
qed

lemma calculateChecksum_lt_aux:
  "c < 256 \<Longrightarrow> foldl (\<lambda>checksum byte. checksum XOR unat byte) c (bytes :: 8 word list) < 256"
proof (induction bytes arbitrary: c)
  case Nil
  then show ?case by simp
next
  case (Cons x xs)
  have "unat x < 256" using unsigned_less [of x] by simp
  with Cons.prems have "c XOR unat x < 256" by (rule xor_lt_256)
  then show ?case using Cons.IH by simp
qed

lemma calculateChecksum_lt: "calculateChecksum bytes < 256"
  unfolding calculateChecksum_def by (rule calculateChecksum_lt_aux) simp

lemma rev_upt_Suc_snoc: "rev [0..<Suc n] = map Suc (rev [0..<n]) @ [0]"
proof -
  have "[0..<Suc n] = 0 # map Suc [0..<n]"
    by (simp only: upt_conv_Cons zero_less_Suc map_Suc_upt)
  then show ?thesis by (simp add: rev_map)
qed

lemma div_pow_Suc: "x \<le> 1 \<Longrightarrow> (v * 2 + x) div 2 ^ Suc i mod 2 = v div 2 ^ i mod (2::nat)"
proof -
  assume "x \<le> 1"
  then have a: "(v * 2 + x) div 2 = v" by simp
  have "(v * 2 + x) div 2 ^ Suc i = (v * 2 + x) div 2 div 2 ^ i"
    by (simp only: power_Suc div_mult2_eq)
  with a show ?thesis by simp
qed

lemma msb_first_digits:
  "\<forall>b\<in>set bs. b \<le> 1 \<Longrightarrow>
   map (\<lambda>i. foldl (\<lambda>acc bit. acc * 2 + bit) (0::nat) bs div 2 ^ i mod 2) (rev [0..<length bs]) = bs"
proof (induction bs rule: rev_induct)
  case Nil
  show ?case by simp
next
  case (snoc x xs)
  let ?v = "foldl (\<lambda>acc bit. acc * 2 + bit) (0::nat) xs"
  have x: "x \<le> 1" using snoc.prems by simp
  have hi: "(?v * 2 + x) div 2 ^ Suc i mod 2 = ?v div 2 ^ i mod 2" for i
    using x by (rule div_pow_Suc)
  have lo: "(?v * 2 + x) mod 2 = x" using x by simp
  have IH: "map (\<lambda>i. ?v div 2 ^ i mod 2) (rev [0..<length xs]) = xs"
    using snoc by simp
  have "map (\<lambda>i. (?v * 2 + x) div 2 ^ i mod 2) (rev [0..<Suc (length xs)])
        = map (\<lambda>i. (?v * 2 + x) div 2 ^ Suc i mod 2) (rev [0..<length xs]) @ [(?v * 2 + x) mod 2]"
    unfolding rev_upt_Suc_snoc by (simp add: comp_def)
  also have "\<dots> = xs @ [x]"
    unfolding hi lo IH ..
  finally show ?case by simp
qed

lemma byteToBits_bitsToNumber:
  assumes "length bs = 8" "\<forall>b\<in>set bs. b \<le> 1"
  shows "byteToBits (bitsToNumber bs) = bs"
proof -
  have "bitsToNumber bs = foldl (\<lambda>acc bit. acc * 2 + bit) 0 bs"
    unfolding bitsToNumber_def using assms(2) by (rule shift_or_foldl)
  then show ?thesis
    unfolding byteToBits_alt using msb_first_digits [OF assms(2)] assms(1) by simp
qed

lemma frameToCells_alt: "frameToCells (hi, lo) = byteToBits hi @ byteToBits lo"
  by (simp add: frameToCells_def byteToBits_def)

lemma cellsToFrame_alt:
  assumes "length cells = 16" "\<forall>c\<in>set cells. c \<le> 1"
  shows "cellsToFrame cells = (bitsToNumber (take 8 cells), bitsToNumber (drop 8 cells))"
proof -
  have cb: "cellBit cells i = cells ! i" if "i < 16" for i
  proof -
    have "cells ! i \<in> set cells" using that assms(1) by simp
    then have "cells ! i \<le> 1" using assms(2) by blast
    then show ?thesis using that assms(1) by (auto simp: cellBit_def)
  qed
  have t: "take 8 cells = map (cellBit cells) [0, 1, 2, 3, 4, 5, 6, 7]"
    using assms(1) by (intro nth_equalityI) (auto simp: cb nth_Cons' less_Suc_eq numeral_eq_Suc)
  have d: "drop 8 cells = map (cellBit cells) [8, 9, 10, 11, 12, 13, 14, 15]"
    using assms(1) by (intro nth_equalityI) (auto simp: cb nth_Cons' less_Suc_eq numeral_eq_Suc)
  show ?thesis
    unfolding cellsToFrame_def bitsToNumber_def t d by (simp add: foldl_map)
qed

section \<open>UTF-8 and UTF-16\<close>

lemma unat_byte: "n < 256 \<Longrightarrow> unat (of_nat n :: 8 word) = n"
  by (simp add: unat_of_nat)

lemma mod_hi: "r < m \<Longrightarrow> (k * m + r) mod m = (r::nat)"
  by simp

lemma utf8_run_1:
  assumes "cp < 0x80"
  shows "utf8_run utf8_initial (utf8_bytes cp @ rest) out = utf8_run utf8_initial rest (out @ [cp])"
  using assms by (simp add: utf8_bytes_def utf8_initial_def unat_byte)

lemma utf8_run_2:
  assumes "0x80 \<le> cp" "cp < 0x800"
  shows "utf8_run utf8_initial (utf8_bytes cp @ rest) out = utf8_run utf8_initial rest (out @ [cp])"
proof -
  define q r where "q = cp div 0x40" and "r = cp mod 0x40"
  have cp: "q * 0x40 + r = cp" and r: "r < 0x40" by (simp_all add: q_def r_def)
  have q: "2 \<le> q" "q < 0x20" using assms by (simp_all add: q_def)
  have b0: "(0xC0 + q) mod 0x20 = q" using mod_hi [of q "0x20" 6] q by simp
  have b1: "(0x80 + r) mod 0x40 = r" using mod_hi [of r "0x40" 2] r by simp
  have bytes: "utf8_bytes cp = [of_nat (0xC0 + q), of_nat (0x80 + r)]"
    using assms by (simp add: utf8_bytes_def q_def r_def)
  show ?thesis
    unfolding bytes using q r
    by (simp add: utf8_initial_def unat_byte b0 b1 cp Let_def del: of_nat_add of_nat_numeral)
qed

lemma utf8_run_3:
  assumes "0x800 \<le> cp" "cp < 0x10000" "cp < 0xD800 \<or> 0xE000 \<le> cp"
  shows "utf8_run utf8_initial (utf8_bytes cp @ rest) out = utf8_run utf8_initial rest (out @ [cp])"
proof -
  define p r a m where "p = cp div 0x40" and "r = cp mod 0x40"
    and "a = p div 0x40" and "m = p mod 0x40"
  have cp: "p * 0x40 + r = cp" and r: "r < 0x40" by (simp_all add: p_def r_def)
  have p: "a * 0x40 + m = p" and m: "m < 0x40" by (simp_all add: a_def m_def)
  have pb: "0x20 \<le> p" "p < 0x400"
    using assms by (simp_all add: p_def less_eq_div_iff_mult_less_eq div_less_iff_less_mult)
  have a: "a < 0x10" using pb by (simp add: a_def div_less_iff_less_mult)
  have a0: "a = 0 \<longrightarrow> 0x20 \<le> m" using p pb by auto
  have "m < 0x20" if "a = 13"
  proof -
    have "cp < 0xE000" using that p m cp r by simp
    then have "cp < 0xD800" using assms(3) by simp
    then have "p < 0x360" by (simp add: p_def div_less_iff_less_mult)
    then show ?thesis using that p by simp
  qed
  then have a13: "a = 13 \<longrightarrow> m < 0x20" by blast
  have b0: "(0xE0 + a) mod 0x10 = a" using mod_hi [of a "0x10" 14] a by simp
  have b1: "(0x80 + m) mod 0x40 = m" using mod_hi [of m "0x40" 2] m by simp
  have b2: "(0x80 + r) mod 0x40 = r" using mod_hi [of r "0x40" 2] r by simp
  have "cp div 0x1000 = a"
    unfolding a_def p_def by (simp add: div_mult2_eq [symmetric])
  then have bytes: "utf8_bytes cp = [of_nat (0xE0 + a), of_nat (0x80 + m), of_nat (0x80 + r)]"
    using assms by (simp add: utf8_bytes_def m_def p_def r_def)
  have fin: "cp = (a * 0x40 + m) * 0x40 + r" using cp p by simp
  show ?thesis
    unfolding bytes unfolding fin using a a0 a13 m r
    by (auto simp: utf8_initial_def unat_byte b0 b1 b2 Let_def simp del: of_nat_add of_nat_numeral)
qed

lemma utf8_run_4:
  assumes "0x10000 \<le> cp" "cp < 0x110000"
  shows "utf8_run utf8_initial (utf8_bytes cp @ rest) out = utf8_run utf8_initial rest (out @ [cp])"
proof -
  define p r p2 m2 a m1 where "p = cp div 0x40" and "r = cp mod 0x40"
    and "p2 = p div 0x40" and "m2 = p mod 0x40" and "a = p2 div 0x40" and "m1 = p2 mod 0x40"
  have cp: "p * 0x40 + r = cp" and r: "r < 0x40" by (simp_all add: p_def r_def)
  have p: "p2 * 0x40 + m2 = p" and m2: "m2 < 0x40" by (simp_all add: p2_def m2_def)
  have p2: "a * 0x40 + m1 = p2" and m1: "m1 < 0x40" by (simp_all add: a_def m1_def)
  have pb: "0x400 \<le> p" "p < 0x4400"
    using assms by (simp_all add: p_def less_eq_div_iff_mult_less_eq div_less_iff_less_mult)
  have p2b: "0x10 \<le> p2" "p2 < 0x110"
    using pb by (simp_all add: p2_def less_eq_div_iff_mult_less_eq div_less_iff_less_mult)
  have a: "a < 5" using p2b by (simp add: a_def div_less_iff_less_mult)
  have a0: "a = 0 \<longrightarrow> 0x10 \<le> m1" using p2 p2b by auto
  have a4: "a = 4 \<longrightarrow> m1 < 0x10" using p2 p2b by auto
  have b0: "(0xF0 + a) mod 0x08 = a" using mod_hi [of a "0x08" 30] a by simp
  have b1: "(0x80 + m1) mod 0x40 = m1" using mod_hi [of m1 "0x40" 2] m1 by simp
  have b2: "(0x80 + m2) mod 0x40 = m2" using mod_hi [of m2 "0x40" 2] m2 by simp
  have b3: "(0x80 + r) mod 0x40 = r" using mod_hi [of r "0x40" 2] r by simp
  have d1: "cp div 0x1000 = p2"
    unfolding p2_def p_def by (simp add: div_mult2_eq [symmetric])
  have d2: "cp div 0x40000 = a"
    unfolding a_def p2_def p_def by (simp add: div_mult2_eq [symmetric])
  have bytes: "utf8_bytes cp =
      [of_nat (0xF0 + a), of_nat (0x80 + m1), of_nat (0x80 + m2), of_nat (0x80 + r)]"
    using assms by (simp add: utf8_bytes_def d1 d2 m1_def m2_def r_def p_def)
  have fin: "cp = ((a * 0x40 + m1) * 0x40 + m2) * 0x40 + r" using cp p p2 by simp
  show ?thesis
    unfolding bytes unfolding fin using a a0 a4 m1 m2 r
    by (auto simp: utf8_initial_def unat_byte b0 b1 b2 b3 Let_def simp del: of_nat_add of_nat_numeral)
qed

lemma utf8_run_scalar:
  assumes "scalar_value cp"
  shows "utf8_run utf8_initial (utf8_bytes cp @ rest) out = utf8_run utf8_initial rest (out @ [cp])"
proof -
  consider "cp < 0x80" | "0x80 \<le> cp" "cp < 0x800" | "0x800 \<le> cp" "cp < 0x10000"
    | "0x10000 \<le> cp" by linarith
  then show ?thesis
  proof cases
    case 1 then show ?thesis by (rule utf8_run_1)
  next
    case 2 then show ?thesis by (rule utf8_run_2)
  next
    case 3 then show ?thesis using assms by (intro utf8_run_3) (auto simp: scalar_value_def)
  next
    case 4 then show ?thesis using assms by (intro utf8_run_4) (auto simp: scalar_value_def)
  qed
qed

lemma utf8_run_scalars:
  "\<forall>cp\<in>set cps. scalar_value cp \<Longrightarrow>
   utf8_run utf8_initial (concat (map utf8_bytes cps) @ rest) out
   = utf8_run utf8_initial rest (out @ cps)"
  by (induction cps arbitrary: out) (simp_all add: utf8_run_scalar)

lemma utf8_decode_encode:
  "\<forall>cp\<in>set cps. scalar_value cp \<Longrightarrow> utf8_decode (concat (map utf8_bytes cps)) = Some cps"
  using utf8_run_scalars [of cps "[]" "[]"] by (simp add: utf8_decode_def utf8_initial_def)

lemma unat_unit: "unat (u :: 16 word) < 0x10000"
  using unsigned_less [of u] by simp

lemma is_high_surrogate_nat: "is_high_surrogate u \<longleftrightarrow> 0xD800 \<le> unat u \<and> unat u \<le> 0xDBFF"
  by (simp add: is_high_surrogate_def word_le_nat_alt)

lemma is_low_surrogate_nat: "is_low_surrogate u \<longleftrightarrow> 0xDC00 \<le> unat u \<and> unat u \<le> 0xDFFF"
  by (simp add: is_low_surrogate_def word_le_nat_alt)

lemma is_surrogate_nat: "is_surrogate u \<longleftrightarrow> 0xD800 \<le> unat u \<and> unat u \<le> 0xDFFF"
  by (auto simp: is_surrogate_def is_high_surrogate_nat is_low_surrogate_nat)

lemma scalar_single: "scalar_value (if is_surrogate u then 0xFFFD else unat u)"
  using unat_unit [of u] by (auto simp: scalar_value_def is_surrogate_nat)

lemma scalar_pair:
  assumes "is_high_surrogate u" "is_low_surrogate v"
  shows "scalar_value (0x10000 + (unat u - 0xD800) * 0x400 + (unat v - 0xDC00))"
proof -
  have "unat u - 0xD800 \<le> 0x3FF" "unat v - 0xDC00 \<le> 0x3FF"
    using assms unfolding is_high_surrogate_nat is_low_surrogate_nat by linarith+
  then have "(unat u - 0xD800) * 0x400 + (unat v - 0xDC00) \<le> 0x3FF * 0x400 + 0x3FF"
    by (intro add_mono mult_right_mono) simp_all
  then show ?thesis by (simp add: scalar_value_def)
qed

lemma to_scalar_values_scalar: "\<forall>cp\<in>set (to_scalar_values s). scalar_value cp"
  by (induction s rule: to_scalar_values.induct) (simp_all add: scalar_single scalar_pair)

lemma TextEncoder_utf8_decode: "utf8_decode (TextEncoder_encode s) = Some (to_scalar_values s)"
  unfolding TextEncoder_encode_def by (rule utf8_decode_encode) (rule to_scalar_values_scalar)

lemma utf16_single: "\<not> is_surrogate u \<Longrightarrow> utf16_units (unat u) = [u]"
  using unat_unit [of u] by (simp add: utf16_units_def)

lemma utf16_pair:
  assumes "is_high_surrogate u" "is_low_surrogate v"
  shows "utf16_units (0x10000 + (unat u - 0xD800) * 0x400 + (unat v - 0xDC00)) = [u, v]"
proof -
  define h l where "h = unat u - 0xD800" and "l = unat v - 0xDC00"
  have l: "l < 0x400" using assms(2) unfolding l_def is_low_surrogate_nat by linarith
  have u: "0xD800 + h = unat u" using assms(1) by (simp add: h_def is_high_surrogate_nat)
  have v: "0xDC00 + l = unat v" using assms(2) by (simp add: l_def is_low_surrogate_nat)
  have "(h * 0x400 + l) div 0x400 = h" "(h * 0x400 + l) mod 0x400 = l"
    using l by simp_all
  then have "utf16_units (0x10000 + h * 0x400 + l) = [of_nat (0xD800 + h), of_nat (0xDC00 + l)]"
    by (simp add: utf16_units_def del: of_nat_add of_nat_numeral)
  then show ?thesis
    unfolding u v unfolding h_def l_def by simp
qed

lemma utf16_round_trip: "well_formed s \<Longrightarrow> concat (map utf16_units (to_scalar_values s)) = s"
proof (induction s rule: to_scalar_values.induct)
  case 1
  show ?case by simp
next
  case (2 u)
  then show ?case by (simp add: utf16_single)
next
  case (3 u v us)
  show ?case
  proof (cases "is_high_surrogate u")
    case True
    with 3 show ?thesis by (simp add: utf16_pair)
  next
    case False
    with 3 have "\<not> is_surrogate u" "well_formed (v # us)" by (simp_all add: is_surrogate_def)
    with 3 False show ?thesis by (simp add: utf16_single)
  qed
qed

lemma unat_bom: "unat (u :: 16 word) = 0xFEFF \<longleftrightarrow> u = 0xFEFF"
proof
  assume "unat u = 0xFEFF"
  then have "of_nat (unat u) = (of_nat 0xFEFF :: 16 word)" by (rule arg_cong)
  then show "u = 0xFEFF" by simp
next
  assume "u = 0xFEFF" then show "unat u = 0xFEFF" by simp
qed

lemma strip_bom_to_scalar_values:
  "s = [] \<or> hd s \<noteq> 0xFEFF \<Longrightarrow> strip_bom (to_scalar_values s) = to_scalar_values s"
  by (cases s rule: to_scalar_values.cases) (auto simp: unat_bom)

lemma TextDecoder_TextEncoder:
  assumes "well_formed s" "s = [] \<or> hd s \<noteq> 0xFEFF"
  shows "TextDecoder_decode (TextEncoder_encode s) = Some s"
  using assms
  by (simp add: TextDecoder_decode_def TextEncoder_utf8_decode strip_bom_to_scalar_values
      utf16_round_trip)

section \<open>The start marker\<close>

lemma allOnes_iff: "allOnes bs i \<longleftrightarrow> (\<forall>j<8. bs ! (i + j) = 1)"
proof -
  have "set [0, 1, 2, 3, 4, 5, 6, 7] = {j::nat. j < 8}"
    by (auto simp: less_Suc_eq numeral_eq_Suc)
  then show ?thesis
    unfolding allOnes_def list_all_iff by blast
qed

lemma findStartMarker_loop_Some:
  "findStartMarker_loop bs i = Some k \<Longrightarrow>
   i \<le> k \<and> k + 8 \<le> length bs \<and> allOnes bs k \<and> (\<forall>j. i \<le> j \<and> j < k \<longrightarrow> \<not> allOnes bs j)"
proof (induction bs i rule: findStartMarker_loop.induct)
  case (1 bs i)
  show ?case
  proof (cases "i + 8 \<le> length bs \<and> \<not> allOnes bs i")
    case True
    then have "findStartMarker_loop bs (i + 1) = Some k"
      using "1.prems" by (simp add: findStartMarker_loop.simps [of bs i])
    with True have "i + 1 \<le> k \<and> k + 8 \<le> length bs \<and> allOnes bs k
        \<and> (\<forall>j. i + 1 \<le> j \<and> j < k \<longrightarrow> \<not> allOnes bs j)"
      using "1.IH" by blast
    with True show ?thesis
      by (metis Suc_eq_plus1 Suc_leI le_neq_implies_less nat_less_le order.strict_trans2 lessI less_or_eq_imp_le)
  next
    case False
    then show ?thesis
      using "1.prems" by (auto simp: findStartMarker_loop.simps [of bs i] split: if_splits)
  qed
qed

lemma findStartMarker_loop_None:
  "findStartMarker_loop bs i = None \<Longrightarrow> i \<le> j \<Longrightarrow> j + 8 \<le> length bs \<Longrightarrow> \<not> allOnes bs j"
proof (induction bs i rule: findStartMarker_loop.induct)
  case (1 bs i)
  have here: "i + 8 \<le> length bs" using "1.prems" by simp
  with "1.prems" have no: "\<not> allOnes bs i" and nxt: "findStartMarker_loop bs (i + 1) = None"
    by (simp_all add: findStartMarker_loop.simps [of bs i] split: if_splits)
  show ?case
  proof (cases "j = i")
    case True
    with no show ?thesis by simp
  next
    case False
    with "1.prems" have "i + 1 \<le> j" by simp
    then show ?thesis using "1.IH" here no nxt "1.prems"(3) by blast
  qed
qed

lemma findStartMarker_SomeI:
  assumes "k + 8 \<le> length bs" "allOnes bs k" "\<And>j. j < k \<Longrightarrow> \<not> allOnes bs j"
  shows "findStartMarker bs = Some k"
proof (cases "findStartMarker bs")
  case None
  then show ?thesis
    using findStartMarker_loop_None [of bs 0 k] assms by (simp add: findStartMarker_def)
next
  case (Some k')
  then have k': "k' + 8 \<le> length bs" "allOnes bs k'" "\<forall>j. j < k' \<longrightarrow> \<not> allOnes bs j"
    using findStartMarker_loop_Some [of bs 0 k'] by (simp_all add: findStartMarker_def)
  have "k' = k"
    using k' assms by (meson linorder_neqE_nat)
  with Some show ?thesis by simp
qed

lemma findStartMarker_NoneI:
  assumes "\<And>j. j + 8 \<le> length bs \<Longrightarrow> \<not> allOnes bs j"
  shows "findStartMarker bs = None"
proof (cases "findStartMarker bs")
  case None
  then show ?thesis .
next
  case (Some k)
  then show ?thesis
    using findStartMarker_loop_Some [of bs 0 k] assms by (auto simp: findStartMarker_def)
qed

lemma findStartMarker_NoneD:
  "findStartMarker bs = None \<Longrightarrow> j + 8 \<le> length bs \<Longrightarrow> \<not> allOnes bs j"
  using findStartMarker_loop_None [of bs 0 j] by (simp add: findStartMarker_def)

lemma findStartMarker_SomeD:
  "findStartMarker bs = Some k \<Longrightarrow>
   k + 8 \<le> length bs \<and> allOnes bs k \<and> (\<forall>j<k. \<not> allOnes bs j)"
  using findStartMarker_loop_Some [of bs 0 k] by (simp add: findStartMarker_def)

section \<open>Frames\<close>

lemma slice_8: "slice bs a (a + 8) = take 8 (drop a bs)"
  by (simp add: slice_def)

lemma Uint8Array_from_unat: "Uint8Array_from (map unat bytes) = bytes"
  by (simp add: Uint8Array_from_def comp_def)

lemma unat_byte_lt: "unat (b :: 8 word) < 256"
  using unsigned_less [of b] by simp

lemma readDataBytes_frame:
  assumes "drop bitIndex bs = concat (map byteToBits data) @ rest" "\<forall>d\<in>set data. d < 256"
  shows "readDataBytes bs (length data) dataBytes bitIndex
         = Some (dataBytes @ data, bitIndex + 8 * length data)"
  using assms
proof (induction data arbitrary: dataBytes bitIndex)
  case Nil
  show ?case by simp
next
  case (Cons d data)
  have here: "drop bitIndex bs = byteToBits d @ concat (map byteToBits data) @ rest"
    using Cons.prems(1) by simp
  then have t: "take 8 (drop bitIndex bs) = byteToBits d"
    by (simp add: byteToBits_length)
  have "drop (bitIndex + 8) bs = drop 8 (drop bitIndex bs)"
    by (simp add: add.commute)
  then have nxt: "drop (bitIndex + 8) bs = concat (map byteToBits data) @ rest"
    unfolding here by (simp add: byteToBits_length)
  have d: "d < 256" using Cons.prems(2) by simp
  have "readDataBytes bs (length data) (dataBytes @ [d]) (bitIndex + 8)
        = Some ((dataBytes @ [d]) @ data, bitIndex + 8 + 8 * length data)"
    using nxt Cons.prems(2) by (intro Cons.IH) simp_all
  then show ?case
    by (simp add: slice_8 t byteToBits_length bitsToNumber_byteToBits d)
qed

text \<open>What \<open>decode\<close> returns on a buffer whose first marker is followed by a well-built frame.\<close>

lemma decode_frame:
  assumes marker: "findStartMarker bs = Some i"
    and frame: "drop (i + 8) bs
                = byteToBits (length data) @ concat (map byteToBits data) @ byteToBits ck @ rest"
    and len: "0 < length data" "length data \<le> 200"
    and data: "\<forall>d\<in>set data. d < 256"
    and ck: "ck < 256"
  shows "decode bs = (if ck = calculateChecksum (Uint8Array_from data)
                      then TextDecoder_decode (Uint8Array_from data) else None)"
proof -
  have l: "take 8 (drop (i + 8) bs) = byteToBits (length data)"
    unfolding frame by (simp add: byteToBits_length)
  have "drop (i + 8 + 8) bs = drop 8 (drop (i + 8) bs)"
    by (simp add: add.commute)
  then have body: "drop (i + 8 + 8) bs = concat (map byteToBits data) @ (byteToBits ck @ rest)"
    unfolding frame by (simp add: byteToBits_length)
  have rd: "readDataBytes bs (length data) [] (i + 8 + 8)
            = Some ([] @ data, i + 8 + 8 + 8 * length data)"
    using body data by (rule readDataBytes_frame)
  have "length (concat (map byteToBits data)) = 8 * length data"
    by (induction data) (simp_all add: byteToBits_length)
  then have "drop (i + 8 + 8 + 8 * length data) bs = byteToBits ck @ rest"
    using arg_cong [OF body, of "drop (8 * length data)"] by (simp add: add.commute)
  then have c: "take 8 (drop (i + 8 + 8 + 8 * length data) bs) = byteToBits ck"
    by (simp add: byteToBits_length)
  then have c': "take 8 (drop (16 + i + 8 * length data) bs) = byteToBits ck"
    by (simp add: ac_simps)
  have lc: "\<not> min (length bs - (16 + i + 8 * length data)) 8 < 8"
    using arg_cong [OF c', of length] by (simp add: byteToBits_length)
  have ll: "\<not> min (length bs - (i + 8)) 8 < 8"
    using arg_cong [OF l, of length] by (simp add: byteToBits_length)
  have n: "bitsToNumber (byteToBits (length data)) = length data"
    using len by (intro bitsToNumber_byteToBits) simp
  show ?thesis
    using len rd
    by (simp add: decode_def marker slice_8 l c' n byteToBits_length MAX_MESSAGE_BYTES_def
        bitsToNumber_byteToBits ck calculateChecksum_lt lc ll Let_def)
qed

lemma allOnes_PREAMBLE_tail:
  assumes "length pre < j" "j < length pre + 8"
  shows "\<not> allOnes (pre @ PREAMBLE @ rest) j"
proof -
  define d where "d = length pre + 7 - j"
  have d: "d < 8" "j + d = length pre + 7" using assms by (simp_all add: d_def)
  have "(pre @ PREAMBLE @ rest) ! (j + d) = 0"
    unfolding d(2) by (simp add: nth_append PREAMBLE_def)
  then show ?thesis
    unfolding allOnes_iff using d(1) by (metis zero_neq_one)
qed

lemma allOnes_append_left:
  assumes "j + 8 \<le> length xs"
  shows "allOnes (xs @ ys) j \<longleftrightarrow> allOnes xs j"
  unfolding allOnes_iff using assms by (simp add: nth_append)

lemma allOnes_START_MARKER: "allOnes (pre @ START_MARKER @ rest) (length pre)"
  unfolding allOnes_iff by (auto simp: nth_append START_MARKER_def nth_Cons' )

lemma findStartMarker_after_prefix:
  assumes "findStartMarker (pre @ PREAMBLE) = None"
  shows "findStartMarker (pre @ PREAMBLE @ START_MARKER @ rest) = Some (length pre + 8)"
proof (rule findStartMarker_SomeI)
  show "length pre + 8 + 8 \<le> length (pre @ PREAMBLE @ START_MARKER @ rest)"
    by (simp add: PREAMBLE_def START_MARKER_def)
  have L: "length (pre @ PREAMBLE) = length pre + 8" by (simp add: PREAMBLE_def)
  show "allOnes (pre @ PREAMBLE @ START_MARKER @ rest) (length pre + 8)"
    using allOnes_START_MARKER [of "pre @ PREAMBLE" rest] unfolding L by (simp only: append_assoc)
  show "\<not> allOnes (pre @ PREAMBLE @ START_MARKER @ rest) j" if "j < length pre + 8" for j
  proof (cases "j \<le> length pre")
    case True
    then have "j + 8 \<le> length (pre @ PREAMBLE)" by (simp add: PREAMBLE_def)
    then have "allOnes ((pre @ PREAMBLE) @ START_MARKER @ rest) j \<longleftrightarrow> allOnes (pre @ PREAMBLE) j"
      by (rule allOnes_append_left)
    moreover have "\<not> allOnes (pre @ PREAMBLE) j"
      using assms \<open>j + 8 \<le> length (pre @ PREAMBLE)\<close> by (rule findStartMarker_NoneD)
    ultimately show ?thesis by simp
  next
    case False
    then show ?thesis using that by (intro allOnes_PREAMBLE_tail) simp_all
  qed
qed

lemma findStartMarker_PREAMBLE: "findStartMarker PREAMBLE = None"
proof (rule findStartMarker_NoneI)
  fix j assume "j + 8 \<le> length PREAMBLE"
  then have "j = 0" by (simp add: PREAMBLE_def)
  moreover have "PREAMBLE ! (0 + 1) = 0" by (simp add: PREAMBLE_def)
  ultimately show "\<not> allOnes PREAMBLE j"
    unfolding allOnes_iff by (metis zero_neq_one one_less_numeral_iff semiring_norm(76))
qed

lemma decode_zero_length:
  assumes "findStartMarker bs = Some i" "take 8 (drop (i + 8) bs) = byteToBits 0"
  shows "decode bs = None"
proof -
  have "bitsToNumber (byteToBits 0) = 0" by (rule bitsToNumber_byteToBits) simp
  then show ?thesis
    using assms by (simp add: decode_def slice_8 Let_def)
qed

lemma TextEncoder_encode_Nil_iff: "TextEncoder_encode s = [] \<longleftrightarrow> s = []"
proof -
  have "utf8_bytes cp \<noteq> []" for cp by (simp add: utf8_bytes_def)
  moreover have "to_scalar_values s = [] \<longleftrightarrow> s = []"
    by (cases s rule: to_scalar_values.cases) simp_all
  ultimately show ?thesis by (auto simp: TextEncoder_encode_def)
qed

lemma encode_Inr:
  assumes "encode message = Inr bs"
  shows "length (TextEncoder_encode message) \<le> 200"
    and "bs = PREAMBLE @ START_MARKER @ byteToBits (length (TextEncoder_encode message))
              @ concat (map byteToBits (map unat (TextEncoder_encode message)))
              @ byteToBits (calculateChecksum (TextEncoder_encode message)) @ []"
  using assms by (simp_all add: encode_def Let_def MAX_MESSAGE_BYTES_def comp_def split: if_splits)

text \<open>What \<open>decode\<close> returns on an encoding, also behind leading bits that bring no marker.\<close>

lemma decode_prefix_encode:
  assumes enc: "encode message = Inr bs"
    and pre: "findStartMarker (pre @ PREAMBLE) = None"
  shows "decode (pre @ bs) = (if message = [] then None
                               else TextDecoder_decode (TextEncoder_encode message))"
proof -
  let ?bytes = "TextEncoder_encode message"
  let ?body = "byteToBits (length ?bytes) @ concat (map byteToBits (map unat ?bytes))
               @ byteToBits (calculateChecksum ?bytes) @ []"
  have bs: "pre @ bs = pre @ PREAMBLE @ START_MARKER @ ?body"
    using encode_Inr(2) [OF enc] by simp
  have marker: "findStartMarker (pre @ bs) = Some (length pre + 8)"
    unfolding bs using pre by (rule findStartMarker_after_prefix)
  have body: "drop (length pre + 8 + 8) (pre @ bs) = ?body"
    unfolding bs by (simp add: PREAMBLE_def START_MARKER_def)
  show ?thesis
  proof (cases "message = []")
    case True
    then have "take 8 (drop (length pre + 8 + 8) (pre @ bs)) = byteToBits 0"
      unfolding body by (simp add: TextEncoder_encode_def byteToBits_length)
    with marker show ?thesis using True by (simp add: decode_zero_length)
  next
    case False
    then have "0 < length (map unat ?bytes)" by (simp add: TextEncoder_encode_Nil_iff)
    moreover have "length (map unat ?bytes) \<le> 200" using encode_Inr(1) [OF enc] by simp
    moreover have "\<forall>d\<in>set (map unat ?bytes). d < 256" by (simp add: unat_byte_lt)
    moreover have "drop (length pre + 8 + 8) (pre @ bs)
        = byteToBits (length (map unat ?bytes)) @ concat (map byteToBits (map unat ?bytes))
          @ byteToBits (calculateChecksum ?bytes) @ []"
      unfolding body by simp
    ultimately have "decode (pre @ bs)
        = (if calculateChecksum ?bytes = calculateChecksum (Uint8Array_from (map unat ?bytes))
           then TextDecoder_decode (Uint8Array_from (map unat ?bytes)) else None)"
      using marker calculateChecksum_lt [of ?bytes] by (intro decode_frame) 
    then show ?thesis using False by (simp add: Uint8Array_from_unat)
  qed
qed

lemma decode_encode:
  assumes "encode message = Inr bs"
  shows "decode bs = (if message = [] then None
                      else TextDecoder_decode (TextEncoder_encode message))"
  using decode_prefix_encode [OF assms, of "[]"] findStartMarker_PREAMBLE by simp

section \<open>Protocol: the claims\<close>

lemma to_scalar_values_Cons:
  "\<not> is_surrogate u \<Longrightarrow> to_scalar_values (u # us) = unat u # to_scalar_values us"
  by (cases us) (simp_all add: is_surrogate_def)

lemma getByteLength_ascii: "getByteLength (replicate n 0x61) = n"
proof -
  have "\<not> is_surrogate 0x61"
    by (simp add: is_surrogate_def is_high_surrogate_def is_low_surrogate_def)
  then have "to_scalar_values (replicate n 0x61) = replicate n 0x61"
    by (induction n) (simp_all add: to_scalar_values_Cons)
  moreover have "length (concat (map utf8_bytes (replicate k 0x61))) = k" for k
    by (induction k) (simp_all add: utf8_bytes_def)
  ultimately show ?thesis
    by (simp add: getByteLength_def TextEncoder_encode_def)
qed

text \<open>
  C5. \<open>encode\<close> raises \<open>MessageTooLong\<close> exactly when the UTF-8 byte length of the message
  exceeds 200 and returns a bit sequence exactly when it does not; \<open>canEncode\<close> is the test
  \<open>getByteLength m \<le> 200\<close>. The string of 201 letters \<open>a\<close> has 201 bytes and is refused
  by both; the string of 200 letters is accepted.
\<close>

theorem encode_MessageTooLong_iff:
  "(encode m = Inl MessageTooLong) = (200 < getByteLength m)
   \<and> (\<exists>bs. encode m = Inr bs) = (getByteLength m \<le> 200)
   \<and> canEncode m = (getByteLength m \<le> 200)
   \<and> getByteLength (replicate 201 0x61) = 201
   \<and> encode (replicate 201 0x61) = Inl MessageTooLong
   \<and> canEncode (replicate 201 0x61) = False
   \<and> canEncode (replicate 200 0x61) = True
   \<and> (\<exists>bs. encode (replicate 200 0x61) = Inr bs)"
proof -
  have a: "(encode s = Inl MessageTooLong) = (200 < getByteLength s)" for s
    by (simp add: encode_def getByteLength_def MAX_MESSAGE_BYTES_def Let_def)
  have b: "(\<exists>bs. encode s = Inr bs) = (getByteLength s \<le> 200)" for s
    by (auto simp: encode_def getByteLength_def MAX_MESSAGE_BYTES_def Let_def)
  have c: "canEncode s = (getByteLength s \<le> 200)" for s
    by (simp add: canEncode_def MAX_MESSAGE_BYTES_def)
  show ?thesis
    unfolding a b c getByteLength_ascii by simp
qed

lemmas surrogate_defs = is_surrogate_def is_high_surrogate_def is_low_surrogate_def

lemma encode_exists: "getByteLength m \<le> 200 \<Longrightarrow> \<exists>bs. encode m = Inr bs"
  by (simp add: encode_def getByteLength_def MAX_MESSAGE_BYTES_def Let_def)

text \<open>
  C1, as the code has it. For every message \<open>m\<close> of at most 200 UTF-8 bytes that is not empty,
  has no unpaired surrogate and does not begin with U+FEFF, \<open>encode m\<close> succeeds and
  \<open>decode\<close> of its bits returns \<open>m\<close>. The three conditions are those of the counterexample
  below; ASCII, multi-byte and four-byte code points are all covered.
\<close>

theorem decode_encode_round_trip:
  assumes "getByteLength m \<le> 200" "m \<noteq> []" "well_formed m" "hd m \<noteq> 0xFEFF"
  shows "\<exists>bs. encode m = Inr bs \<and> decode bs = Some m"
proof -
  obtain bs where bs: "encode m = Inr bs"
    using encode_exists [OF assms(1)] by blast
  have "decode bs = TextDecoder_decode (TextEncoder_encode m)"
    using decode_encode [OF bs] assms(2) by simp
  also have "\<dots> = Some m"
    using assms(3,4) by (intro TextDecoder_TextEncoder) simp_all
  finally show ?thesis using bs by blast
qed

theorem decode_encode_round_trip_witness:
  "getByteLength [0x48, 0x69, 0x3053, 0x3093, 0x306B, 0x3061, 0x306F, 0xD83D, 0xDE00] \<le> 200
   \<and> well_formed [0x48, 0x69, 0x3053, 0x3093, 0x306B, 0x3061, 0x306F, 0xD83D, 0xDE00]
   \<and> (\<exists>bs. encode [0x48, 0x69, 0x3053, 0x3093, 0x306B, 0x3061, 0x306F, 0xD83D, 0xDE00] = Inr bs
          \<and> decode bs = Some [0x48, 0x69, 0x3053, 0x3093, 0x306B, 0x3061, 0x306F, 0xD83D, 0xDE00])"
proof -
  let ?m = "[0x48, 0x69, 0x3053, 0x3093, 0x306B, 0x3061, 0x306F, 0xD83D, 0xDE00] :: jsstring"
  have wf: "well_formed ?m" by (simp add: surrogate_defs)
  have len: "getByteLength ?m \<le> 200"
    by (simp add: getByteLength_def TextEncoder_encode_def surrogate_defs utf8_bytes_def)
  show ?thesis
    using decode_encode_round_trip [OF len _ wf] wf len by simp
qed

text \<open>
  C1 as stated fails: the empty string has 0 bytes, \<open>encode\<close> gives the preamble, the marker,
  the length 0 and the checksum 0, and \<open>decode\<close> rejects the length 0. A leading U+FEFF is
  dropped by the \<open>TextDecoder\<close>, and \<open>TextEncoder\<close> turns an unpaired surrogate into U+FFFD.
\<close>

theorem decode_encode_round_trip_counterexample:
  "getByteLength [] \<le> 200
   \<and> encode [] = Inr (PREAMBLE @ START_MARKER @ byteToBits 0 @ byteToBits 0)
   \<and> decode (PREAMBLE @ START_MARKER @ byteToBits 0 @ byteToBits 0) = None
   \<and> getByteLength [0xFEFF, 0x41] = 4
   \<and> encode [0xFEFF, 0x41]
       = Inr (PREAMBLE @ START_MARKER @ byteToBits 4 @ byteToBits 0xEF @ byteToBits 0xBB
              @ byteToBits 0xBF @ byteToBits 0x41 @ byteToBits 0xAA)
   \<and> decode (PREAMBLE @ START_MARKER @ byteToBits 4 @ byteToBits 0xEF @ byteToBits 0xBB
              @ byteToBits 0xBF @ byteToBits 0x41 @ byteToBits 0xAA) = Some [0x41]
   \<and> getByteLength [0xD800] = 3
   \<and> encode [0xD800]
       = Inr (PREAMBLE @ START_MARKER @ byteToBits 3 @ byteToBits 0xEF @ byteToBits 0xBF
              @ byteToBits 0xBD @ byteToBits 0xED)
   \<and> decode (PREAMBLE @ START_MARKER @ byteToBits 3 @ byteToBits 0xEF @ byteToBits 0xBF
              @ byteToBits 0xBD @ byteToBits 0xED) = Some [0xFFFD]"
proof -
  have l0: "getByteLength [] \<le> 200"
    by (simp add: getByteLength_def TextEncoder_encode_def)
  have e0: "encode [] = Inr (PREAMBLE @ START_MARKER @ byteToBits 0 @ byteToBits 0)"
    by (simp add: encode_def TextEncoder_encode_def calculateChecksum_def)
  have n4: "Suc (Suc (Suc (Suc 0))) = 4" and n3: "Suc (Suc (Suc 0)) = 3" by simp_all
  have l1: "getByteLength [0xFEFF, 0x41] = 4"
    by (simp add: getByteLength_def TextEncoder_encode_def surrogate_defs utf8_bytes_def)
  have e1: "encode [0xFEFF, 0x41]
       = Inr (PREAMBLE @ START_MARKER @ byteToBits 4 @ byteToBits 0xEF @ byteToBits 0xBB
              @ byteToBits 0xBF @ byteToBits 0x41 @ byteToBits 0xAA)"
    by (simp add: encode_def TextEncoder_encode_def surrogate_defs utf8_bytes_def
        calculateChecksum_def MAX_MESSAGE_BYTES_def n3 n4)
  have l2: "getByteLength [0xD800] = 3"
    by (simp add: getByteLength_def TextEncoder_encode_def surrogate_defs utf8_bytes_def)
  have e2: "encode [0xD800]
       = Inr (PREAMBLE @ START_MARKER @ byteToBits 3 @ byteToBits 0xEF @ byteToBits 0xBF
              @ byteToBits 0xBD @ byteToBits 0xED)"
    by (simp add: encode_def TextEncoder_encode_def surrogate_defs utf8_bytes_def
        calculateChecksum_def MAX_MESSAGE_BYTES_def n3 n4)
  have d1: "TextDecoder_decode (TextEncoder_encode [0xFEFF, 0x41]) = Some [0x41]"
    by (simp add: TextDecoder_decode_def TextEncoder_utf8_decode surrogate_defs utf16_units_def)
  have d2: "TextDecoder_decode (TextEncoder_encode [0xD800]) = Some [0xFFFD]"
    by (simp add: TextDecoder_decode_def TextEncoder_utf8_decode surrogate_defs utf16_units_def)
  show ?thesis
    using l0 l1 l2 e0 e1 e2 d1 d2 decode_encode [OF e0] decode_encode [OF e1] decode_encode [OF e2]
    by simp
qed

text \<open>
  C7, as the code has it. \<open>decode\<close> takes the first run of eight 1-bits. When the leading bits
  followed by the preamble hold no such run, the marker found is the frame's own, at
  \<open>length pre + 8\<close>, and \<open>decode\<close> returns what it returns on the frame alone: the message,
  under the conditions of the round trip.
\<close>

theorem decode_after_leading_bits:
  assumes "encode m = Inr bs" "findStartMarker (pre @ PREAMBLE) = None"
  shows "findStartMarker (pre @ bs) = Some (length pre + 8)
         \<and> decode (pre @ bs) = decode bs
         \<and> (m \<noteq> [] \<and> well_formed m \<and> hd m \<noteq> 0xFEFF \<longrightarrow> decode (pre @ bs) = Some m)"
proof -
  have "bs = PREAMBLE @ START_MARKER @ drop 16 bs"
    using encode_Inr(2) [OF assms(1)] by (simp add: PREAMBLE_def START_MARKER_def)
  then have 1: "findStartMarker (pre @ bs) = Some (length pre + 8)"
    using findStartMarker_after_prefix [OF assms(2)] by metis
  have 2: "decode (pre @ bs) = decode bs"
    by (simp add: decode_prefix_encode [OF assms] decode_encode [OF assms(1)])
  have 3: "decode (pre @ bs) = Some m" if "m \<noteq> []" "well_formed m" "hd m \<noteq> 0xFEFF"
    using that by (simp add: decode_prefix_encode [OF assms] TextDecoder_TextEncoder)
  from 1 2 3 show ?thesis by blast
qed

theorem decode_after_leading_bits_witness:
  "\<exists>bs. encode [0x54, 0x65, 0x73, 0x74] = Inr bs
        \<and> findStartMarker ([0, 1, 0, 0, 1] @ PREAMBLE) = None
        \<and> findStartMarker ([0, 1, 0, 0, 1] @ bs) = Some 13
        \<and> decode ([0, 1, 0, 0, 1] @ bs) = Some [0x54, 0x65, 0x73, 0x74]"
proof -
  let ?m = "[0x54, 0x65, 0x73, 0x74] :: jsstring"
  have "getByteLength ?m \<le> 200"
    by (simp add: getByteLength_def TextEncoder_encode_def surrogate_defs utf8_bytes_def)
  then obtain bs where bs: "encode ?m = Inr bs"
    using encode_exists by blast
  have no: "findStartMarker ([0, 1, 0, 0, 1] @ PREAMBLE) = None"
    by code_simp
  have "findStartMarker ([0, 1, 0, 0, 1] @ bs) = Some 13"
    and "decode ([0, 1, 0, 0, 1] @ bs) = Some ?m"
    using decode_after_leading_bits [OF bs no] by (auto simp: surrogate_defs)
  then show ?thesis using bs no by blast
qed

text \<open>
  C7 as stated fails: eight 1-bits put before the encoding of \<open>Test\<close> are taken for the
  marker, the preamble is read as the length 170, and \<open>decode\<close> returns none.
\<close>

theorem decode_after_leading_bits_counterexample:
  "encode [0x54, 0x65, 0x73, 0x74]
     = Inr (PREAMBLE @ START_MARKER @ [0, 0, 0, 0, 0, 1, 0, 0]
            @ [0, 1, 0, 1, 0, 1, 0, 0] @ [0, 1, 1, 0, 0, 1, 0, 1] @ [0, 1, 1, 1, 0, 0, 1, 1]
            @ [0, 1, 1, 1, 0, 1, 0, 0] @ [0, 0, 1, 1, 0, 1, 1, 0])
   \<and> findStartMarker ([1, 1, 1, 1, 1, 1, 1, 1] @ PREAMBLE) = Some 0
   \<and> decode ([1, 1, 1, 1, 1, 1, 1, 1] @ PREAMBLE @ START_MARKER @ [0, 0, 0, 0, 0, 1, 0, 0]
            @ [0, 1, 0, 1, 0, 1, 0, 0] @ [0, 1, 1, 0, 0, 1, 0, 1] @ [0, 1, 1, 1, 0, 0, 1, 1]
            @ [0, 1, 1, 1, 0, 1, 0, 0] @ [0, 0, 1, 1, 0, 1, 1, 0]) = None"
  by code_simp

section \<open>The rejections of decode\<close>

lemma upt_Suc_shift: "map g [0..<Suc n] = g 0 # map (\<lambda>k. g (Suc k)) [0..<n]"
proof -
  have "[0..<Suc n] = 0 # map Suc [0..<n]"
    by (simp only: upt_conv_Cons zero_less_Suc map_Suc_upt)
  then show ?thesis by (simp add: comp_def)
qed

lemma readDataBytes_eq:
  "bitIndex \<le> length bs \<Longrightarrow>
   readDataBytes bs n dataBytes bitIndex
   = (if bitIndex + 8 * n \<le> length bs
      then Some (dataBytes
                 @ map (\<lambda>k. bitsToNumber (slice bs (bitIndex + 8 * k) (bitIndex + 8 * k + 8))) [0..<n],
                 bitIndex + 8 * n)
      else None)"
proof (induction n arbitrary: dataBytes bitIndex)
  case 0
  then show ?case by simp
next
  case (Suc n)
  show ?case
  proof (cases "bitIndex + 8 \<le> length bs")
    case True
    then have "\<not> length (slice bs bitIndex (bitIndex + 8)) < 8"
      by (simp add: slice_8)
    then have "readDataBytes bs (Suc n) dataBytes bitIndex
        = readDataBytes bs n (dataBytes @ [bitsToNumber (slice bs bitIndex (bitIndex + 8))])
            (bitIndex + 8)"
      by (simp add: Let_def)
    also have "\<dots> = (if bitIndex + 8 + 8 * n \<le> length bs
      then Some ((dataBytes @ [bitsToNumber (slice bs bitIndex (bitIndex + 8))])
                 @ map (\<lambda>k. bitsToNumber (slice bs (bitIndex + 8 + 8 * k) (bitIndex + 8 + 8 * k + 8)))
                     [0..<n],
                 bitIndex + 8 + 8 * n)
      else None)"
      using True by (rule Suc.IH)
    also have "\<dots> = (if bitIndex + 8 * Suc n \<le> length bs
      then Some (dataBytes
                 @ map (\<lambda>k. bitsToNumber (slice bs (bitIndex + 8 * k) (bitIndex + 8 * k + 8)))
                     [0..<Suc n],
                 bitIndex + 8 * Suc n)
      else None)"
      unfolding upt_Suc_shift by (simp add: algebra_simps)
    finally show ?thesis .
  next
    case False
    then have "length (slice bs bitIndex (bitIndex + 8)) < 8"
      by (simp add: slice_8)
    then show ?thesis using False by (simp add: Let_def)
  qed
qed

lemma foldl_double_bound:
  "\<forall>b\<in>set bs. b \<le> 1 \<Longrightarrow> foldl (\<lambda>acc bit. acc * 2 + bit) (a::nat) bs < (a + 1) * 2 ^ length bs"
proof (induction bs arbitrary: a)
  case Nil
  show ?case by simp
next
  case (Cons b bs)
  then have "foldl (\<lambda>acc bit. acc * 2 + bit) (a * 2 + b) bs < (a * 2 + b + 1) * 2 ^ length bs"
    by simp
  also have "\<dots> \<le> ((a + 1) * 2) * 2 ^ length bs"
    using Cons.prems by (intro mult_right_mono) simp_all
  finally show ?case by (simp add: ac_simps)
qed

lemma bitsToNumber_lt:
  assumes "length bs = 8" "\<forall>b\<in>set bs. b \<le> 1"
  shows "bitsToNumber bs < 256"
proof -
  have "bitsToNumber bs = foldl (\<lambda>acc bit. acc * 2 + bit) 0 bs"
    unfolding bitsToNumber_def using assms(2) by (rule shift_or_foldl)
  then show ?thesis
    using foldl_double_bound [OF assms(2), of 0] assms(1) by simp
qed

lemma slice_length_lt: "length (slice bs a (a + 8)) < 8 \<longleftrightarrow> length bs < a + 8"
  by (auto simp: slice_8)

lemma decode_at:
  assumes "findStartMarker bs = Some i" "a = i + 8" "N = bitsToNumber (slice bs a (a + 8))"
    "c = a + 8 + 8 * N"
    "data = map (\<lambda>k. bitsToNumber (slice bs (a + 8 + 8 * k) (a + 8 + 8 * k + 8))) [0..<N]"
  shows "decode bs =
     (if length bs < a + 8 then None
      else if N = 0 \<or> 200 < N then None
      else if length bs < c + 8 then None
      else if bitsToNumber (slice bs c (c + 8)) \<noteq> calculateChecksum (Uint8Array_from data)
      then None
      else TextDecoder_decode (Uint8Array_from data))"
proof (cases "length bs < a + 8")
  case True
  then have "length (slice bs a (a + 8)) < 8"
    unfolding slice_length_lt .
  then show ?thesis
    using True assms(1) unfolding decode_def assms(2) by (simp add: Let_def)
next
  case False
  then have l8: "\<not> length (slice bs a (a + 8)) < 8"
    unfolding slice_length_lt .
  have idx: "a + 8 \<le> length bs" using False by simp
  have rd: "readDataBytes bs N [] (a + 8)
            = (if c \<le> length bs then Some (data, c) else None)"
    unfolding readDataBytes_eq [OF idx] assms(4,5) by simp
  have d: "decode bs =
      (if N > MAX_MESSAGE_BYTES \<or> N = 0 then None
       else case readDataBytes bs N [] (a + 8) of
              None \<Rightarrow> None
            | Some (dataBytes, bitIndex) \<Rightarrow>
                if length (slice bs bitIndex (bitIndex + 8)) < 8 then None
                else if bitsToNumber (slice bs bitIndex (bitIndex + 8))
                        \<noteq> calculateChecksum (Uint8Array_from dataBytes) then None
                else TextDecoder_decode (Uint8Array_from dataBytes))"
    using assms(1) l8 unfolding decode_def assms(2,3)
    by (simp add: Let_def split: option.split prod.split)
  show ?thesis
    unfolding d rd slice_length_lt using False by (auto simp: MAX_MESSAGE_BYTES_def)
qed

lemma decode_flip_last:
  assumes enc: "encode m = Inr ebs"
  shows "decode (ebs[length ebs - 1 := (if ebs ! (length ebs - 1) = 0 then 1 else 0)]) = None"
proof -
  let ?bytes = "TextEncoder_encode m"
  define ck where "ck = calculateChecksum ?bytes"
  define body where
    "body = byteToBits (length ?bytes) @ concat (map byteToBits (map unat ?bytes))"
  define X where "X = PREAMBLE @ START_MARKER @ body"
  define C where "C = byteToBits ck"
  define v where "v = (if C ! 7 = 0 then 1 else (0::nat))"
  define C' where "C' = C[7 := v]"
  define ck' where "ck' = bitsToNumber C'"
  have ebs: "ebs = X @ C"
    using encode_Inr(2) [OF enc] by (simp add: X_def C_def ck_def body_def)
  have lC: "length C = 8" by (simp add: C_def byteToBits_length)
  have last: "ebs ! (length ebs - 1) = C ! 7"
    unfolding ebs using lC by (simp add: nth_append)
  have "length ebs - 1 = length X + 7" unfolding ebs using lC by simp
  then have flipped: "ebs[length ebs - 1 := (if ebs ! (length ebs - 1) = 0 then 1 else 0)] = X @ C'"
    unfolding last unfolding ebs by (simp add: list_update_append C'_def v_def)
  have lC': "length C' = 8" by (simp add: C'_def lC)
  have bC: "\<forall>b\<in>set C. b \<le> 1" using byteToBits_bits by (auto simp: C_def)
  have "set C' \<subseteq> insert v (set C)" unfolding C'_def by (rule set_update_subset_insert)
  moreover have "v \<le> 1" by (simp add: v_def)
  ultimately have bC': "\<forall>b\<in>set C'. b \<le> 1" using bC by auto
  have bk: "byteToBits ck' = C'"
    unfolding ck'_def using lC' bC' by (rule byteToBits_bitsToNumber)
  have lt: "ck' < 256"
    unfolding ck'_def using lC' bC' by (rule bitsToNumber_lt)
  have "C' ! 7 \<noteq> C ! 7" using lC by (simp add: C'_def v_def)
  then have "C' \<noteq> C" by metis
  then have ne: "ck' \<noteq> ck" using bk by (auto simp: C_def)
  have marker: "findStartMarker (X @ C') = Some 8"
    using findStartMarker_after_prefix [of "[]" "body @ C'"] findStartMarker_PREAMBLE
    by (simp add: X_def)
  have rest: "drop (8 + 8) (X @ C') = body @ C'"
    by (simp add: X_def PREAMBLE_def START_MARKER_def)
  have "decode (X @ C') = None"
  proof (cases "m = []")
    case True
    then have "take 8 (drop (8 + 8) (X @ C')) = byteToBits 0"
      unfolding rest by (simp add: body_def TextEncoder_encode_def byteToBits_length)
    with marker show ?thesis by (rule decode_zero_length)
  next
    case False
    then have "0 < length (map unat ?bytes)" by (simp add: TextEncoder_encode_Nil_iff)
    moreover have "length (map unat ?bytes) \<le> 200" using encode_Inr(1) [OF enc] by simp
    moreover have "\<forall>d\<in>set (map unat ?bytes). d < 256" by (simp add: unat_byte_lt)
    moreover have "drop (8 + 8) (X @ C')
        = byteToBits (length (map unat ?bytes)) @ concat (map byteToBits (map unat ?bytes))
          @ byteToBits ck' @ []"
      unfolding rest bk by (simp add: body_def)
    ultimately have "decode (X @ C')
        = (if ck' = calculateChecksum (Uint8Array_from (map unat ?bytes))
           then TextDecoder_decode (Uint8Array_from (map unat ?bytes)) else None)"
      using marker lt by (intro decode_frame)
    then show ?thesis using ne by (simp add: Uint8Array_from_unat ck_def)
  qed
  then show ?thesis unfolding flipped .
qed

lemma findStartMarker_None_iff:
  "findStartMarker bs = None \<longleftrightarrow> (\<forall>i. i + 8 \<le> length bs \<longrightarrow> (\<exists>j<8. bs ! (i + j) \<noteq> 1))"
proof
  assume "findStartMarker bs = None"
  then show "\<forall>i. i + 8 \<le> length bs \<longrightarrow> (\<exists>j<8. bs ! (i + j) \<noteq> 1)"
    using findStartMarker_NoneD [of bs] unfolding allOnes_iff by blast
next
  assume "\<forall>i. i + 8 \<le> length bs \<longrightarrow> (\<exists>j<8. bs ! (i + j) \<noteq> 1)"
  then show "findStartMarker bs = None"
    by (intro findStartMarker_NoneI) (auto simp: allOnes_iff)
qed

text \<open>
  C6. \<open>decode\<close> returns none (the model's \<open>None\<close>; no path of the source throws, the
  \<open>TypeError\<close> of the fatal \<open>TextDecoder\<close> being caught) whenever the buffer \<open>bs\<close> holds no
  run of eight 1-bits, and, for a buffer \<open>fs\<close> whose first run starts at \<open>i\<close>, whenever the
  length field is cut short, the length \<open>N\<close> is 0 or above 200, a data byte or the checksum
  byte is cut short, the checksum read differs from the XOR of the data bytes, or the data
  bytes are not UTF-8. \<open>decode []\<close> and \<open>decode\<close> of sixteen zeros are none, and so is
  \<open>decode\<close> of any encoding whose last bit was flipped.
\<close>

theorem decode_rejects:
  "(findStartMarker bs = None \<longrightarrow> decode bs = None)
   \<and> ((\<forall>i. i + 8 \<le> length bs \<longrightarrow> (\<exists>j<8. bs ! (i + j) \<noteq> 1)) \<longrightarrow> decode bs = None)
   \<and> (findStartMarker fs = Some i
        \<and> N = bitsToNumber (slice fs (i + 8) (i + 16))
        \<and> data = map (\<lambda>k. bitsToNumber (slice fs (i + 16 + 8 * k) (i + 24 + 8 * k))) [0..<N]
        \<and> (length fs < i + 16 \<or> N = 0 \<or> 200 < N \<or> length fs < i + 24 + 8 * N
             \<or> bitsToNumber (slice fs (i + 16 + 8 * N) (i + 24 + 8 * N))
                 \<noteq> calculateChecksum (Uint8Array_from data)
             \<or> TextDecoder_decode (Uint8Array_from data) = None)
        \<longrightarrow> decode fs = None)
   \<and> decode [] = None
   \<and> decode (replicate 16 0) = None
   \<and> (encode m = Inr ebs
        \<longrightarrow> decode (ebs[length ebs - 1 := (if ebs ! (length ebs - 1) = 0 then 1 else 0)]) = None)"
proof -
  have 1: "findStartMarker bs = None \<longrightarrow> decode bs = None"
    by (simp add: decode_def)
  have 2: "(\<forall>i. i + 8 \<le> length bs \<longrightarrow> (\<exists>j<8. bs ! (i + j) \<noteq> 1)) \<longrightarrow> decode bs = None"
    unfolding findStartMarker_None_iff [symmetric] by (rule 1)
  have 3: "decode fs = None"
    if m: "findStartMarker fs = Some i"
      and N: "N = bitsToNumber (slice fs (i + 8) (i + 16))"
      and d: "data = map (\<lambda>k. bitsToNumber (slice fs (i + 16 + 8 * k) (i + 24 + 8 * k))) [0..<N]"
      and bad: "length fs < i + 16 \<or> N = 0 \<or> 200 < N \<or> length fs < i + 24 + 8 * N
             \<or> bitsToNumber (slice fs (i + 16 + 8 * N) (i + 24 + 8 * N))
                 \<noteq> calculateChecksum (Uint8Array_from data)
             \<or> TextDecoder_decode (Uint8Array_from data) = None"
  proof -
    have N': "N = bitsToNumber (slice fs (i + 8) (i + 8 + 8))"
      using N by (simp add: add.assoc)
    have d': "data = map (\<lambda>k. bitsToNumber (slice fs (i + 8 + 8 + 8 * k) (i + 8 + 8 + 8 * k + 8)))
                       [0..<N]"
      using d by (simp add: ac_simps)
    have "decode fs =
     (if length fs < i + 8 + 8 then None
      else if N = 0 \<or> 200 < N then None
      else if length fs < i + 8 + 8 + 8 * N + 8 then None
      else if bitsToNumber (slice fs (i + 8 + 8 + 8 * N) (i + 8 + 8 + 8 * N + 8))
              \<noteq> calculateChecksum (Uint8Array_from data)
      then None
      else TextDecoder_decode (Uint8Array_from data))"
      using m refl N' refl d' by (rule decode_at)
    then show ?thesis using bad by (auto simp: ac_simps)
  qed
  have 4: "decode [] = None" by code_simp
  have 5: "decode (replicate 16 0) = None" by code_simp
  have 6: "encode m = Inr ebs
        \<longrightarrow> decode (ebs[length ebs - 1 := (if ebs ! (length ebs - 1) = 0 then 1 else 0)]) = None"
    using decode_flip_last by blast
  from 1 2 3 4 5 6 show ?thesis by blast
qed

theorem decode_rejects_witness:
  "findStartMarker (replicate 16 0) = None
   \<and> decode (replicate 16 0) = None
   \<and> findStartMarker (PREAMBLE @ START_MARKER @ [0, 0, 0, 0, 0, 0, 0, 1, 0, 1, 0, 0, 0, 0, 0, 1,
                         0, 1, 0, 0, 0, 0, 0, 0]) = Some 8
   \<and> decode (PREAMBLE @ START_MARKER @ [0, 0, 0, 0, 0, 0, 0, 1, 0, 1, 0, 0, 0, 0, 0, 1,
                0, 1, 0, 0, 0, 0, 0, 0]) = None
   \<and> encode [0x41] = Inr (PREAMBLE @ START_MARKER @ [0, 0, 0, 0, 0, 0, 0, 1, 0, 1, 0, 0, 0, 0, 0, 1,
                            0, 1, 0, 0, 0, 0, 0, 1])
   \<and> decode ((PREAMBLE @ START_MARKER @ [0, 0, 0, 0, 0, 0, 0, 1, 0, 1, 0, 0, 0, 0, 0, 1,
                 0, 1, 0, 0, 0, 0, 0, 1])[39 := 0]) = None"
proof -
  let ?F = "PREAMBLE @ START_MARKER @ [0, 0, 0, 0, 0, 0, 0, 1, 0, 1, 0, 0, 0, 0, 0, 1,
              0, 1, 0, 0, 0, 0, 0, 0]"
  let ?E = "PREAMBLE @ START_MARKER @ [0, 0, 0, 0, 0, 0, 0, 1, 0, 1, 0, 0, 0, 0, 0, 1,
              0, 1, 0, 0, 0, 0, 0, 1]"
  have a: "findStartMarker (replicate 16 0) = None" by code_simp
  have b: "findStartMarker ?F = Some 8" by code_simp
  have c: "1 = bitsToNumber (slice ?F (8 + 8) (8 + 16))" by code_simp
  have d: "[65] = map (\<lambda>k. bitsToNumber (slice ?F (8 + 16 + 8 * k) (8 + 24 + 8 * k))) [0..<1]"
    by code_simp
  have e: "bitsToNumber (slice ?F (8 + 16 + 8 * 1) (8 + 24 + 8 * 1))
           \<noteq> calculateChecksum (Uint8Array_from [65])"
    by code_simp
  have f: "encode [0x41] = Inr ?E" by code_simp
  have g: "?E[length ?E - 1 := (if ?E ! (length ?E - 1) = 0 then 1 else 0)] = ?E[39 := 0]"
    by (simp add: PREAMBLE_def START_MARKER_def)
  show ?thesis
    using decode_rejects [of "replicate 16 0" ?F 8 1 "[65]" "[0x41]" ?E] a b c d e f
    unfolding g by blast
qed

section \<open>GridProtocol: the claims\<close>

lemma frameToCells_nth:
  assumes "k < 8"
  shows "frameToCells (hi, lo) ! k = hi div 2 ^ (7 - k) mod 2"
    and "frameToCells (hi, lo) ! (8 + k) = lo div 2 ^ (7 - k) mod 2"
proof -
  have n: "byteToBits b ! k = b div 2 ^ (7 - k) mod 2" for b
    using assms unfolding byteToBits_alt by (simp add: rev_nth)
  show "frameToCells (hi, lo) ! k = hi div 2 ^ (7 - k) mod 2"
    using assms by (simp add: frameToCells_alt nth_append byteToBits_length n)
  show "frameToCells (hi, lo) ! (8 + k) = lo div 2 ^ (7 - k) mod 2"
    by (simp add: frameToCells_alt nth_append byteToBits_length n)
qed

text \<open>
  C8. \<open>cellsToFrame (frameToCells f) = f\<close> for every frame of two bytes in 0..255,
  \<open>frameToCells (cellsToFrame c) = c\<close> for every array \<open>c\<close> of 16 cells that are 0 or 1, the
  sample frame gives the cells of the spec, and cell \<open>k\<close> is bit \<open>7 - k\<close> of the high byte,
  cell \<open>8 + k\<close> bit \<open>7 - k\<close> of the low byte, for \<open>k\<close> from 0 to 7.
\<close>

theorem frame_cells_inverse:
  "(hi < 256 \<and> lo < 256 \<longrightarrow> cellsToFrame (frameToCells (hi, lo)) = (hi, lo))
   \<and> (length c = 16 \<and> (\<forall>x\<in>set c. x = 0 \<or> x = 1) \<longrightarrow> frameToCells (cellsToFrame c) = c)
   \<and> frameToCells (0xAA, 0x55) = [1, 0, 1, 0, 1, 0, 1, 0, 0, 1, 0, 1, 0, 1, 0, 1]
   \<and> (k < 8 \<longrightarrow> frameToCells (hi, lo) ! k = drop_bit (7 - k) hi AND 1
               \<and> frameToCells (hi, lo) ! (8 + k) = drop_bit (7 - k) lo AND 1)"
proof -
  have 1: "cellsToFrame (frameToCells (hi, lo)) = (hi, lo)" if "hi < 256" "lo < 256"
  proof -
    have "length (frameToCells (hi, lo)) = 16"
      by (simp add: frameToCells_alt byteToBits_length)
    moreover have "\<forall>x\<in>set (frameToCells (hi, lo)). x \<le> 1"
      using byteToBits_bits by (auto simp: frameToCells_alt)
    ultimately have "cellsToFrame (frameToCells (hi, lo))
        = (bitsToNumber (take 8 (frameToCells (hi, lo))), bitsToNumber (drop 8 (frameToCells (hi, lo))))"
      by (rule cellsToFrame_alt)
    then show ?thesis
      using that by (simp add: frameToCells_alt byteToBits_length bitsToNumber_byteToBits)
  qed
  have 2: "frameToCells (cellsToFrame c) = c" if "length c = 16" "\<forall>x\<in>set c. x = 0 \<or> x = 1"
  proof -
    have b: "\<forall>x\<in>set c. x \<le> 1" using that(2) by auto
    have bt: "\<forall>x\<in>set (take 8 c). x \<le> 1" using b by (meson in_set_takeD)
    have bd: "\<forall>x\<in>set (drop 8 c). x \<le> 1" using b by (meson in_set_dropD)
    have "frameToCells (cellsToFrame c)
          = byteToBits (bitsToNumber (take 8 c)) @ byteToBits (bitsToNumber (drop 8 c))"
      by (simp add: cellsToFrame_alt [OF that(1) b] frameToCells_alt)
    also have "\<dots> = take 8 c @ drop 8 c"
      using that(1) bt bd by (simp add: byteToBits_bitsToNumber)
    finally show ?thesis by simp
  qed
  have 3: "frameToCells (0xAA, 0x55) = [1, 0, 1, 0, 1, 0, 1, 0, 0, 1, 0, 1, 0, 1, 0, 1]"
    by code_simp
  have 4: "frameToCells (hi, lo) ! k = drop_bit (7 - k) hi AND 1
           \<and> frameToCells (hi, lo) ! (8 + k) = drop_bit (7 - k) lo AND 1" if "k < 8"
    using frameToCells_nth [OF that] by (simp add: and_one_eq drop_bit_eq_div)
  from 1 2 3 4 show ?thesis by blast
qed

theorem frame_cells_inverse_witness:
  "cellsToFrame (frameToCells (0xF0, 0x0F)) = (0xF0, 0x0F)
   \<and> frameToCells (cellsToFrame [1, 0, 1, 0, 1, 0, 1, 0, 0, 1, 0, 1, 0, 1, 0, 1])
       = [1, 0, 1, 0, 1, 0, 1, 0, 0, 1, 0, 1, 0, 1, 0, 1]
   \<and> frameToCells (0xF0, 0x0F) ! 3 = drop_bit 4 0xF0 AND 1
   \<and> frameToCells (0xF0, 0x0F) ! 11 = drop_bit 4 0x0F AND 1"
  using frame_cells_inverse [of "0xF0" "0x0F" "[1, 0, 1, 0, 1, 0, 1, 0, 0, 1, 0, 1, 0, 1, 0, 1]" 3]
  by simp

lemma GridProtocol_calculateChecksum_eq: "GridProtocol_calculateChecksum = calculateChecksum"
  by (rule ext) (simp add: GridProtocol_calculateChecksum_def calculateChecksum_def)

lemma flatten_splitFrames:
  "i \<le> length payload \<Longrightarrow> even (length payload - i) \<Longrightarrow>
   concat (map (\<lambda>frame. [fst frame, snd frame]) (splitFrames payload i frames))
   = concat (map (\<lambda>frame. [fst frame, snd frame]) frames) @ drop i payload"
proof (induction payload i frames rule: splitFrames.induct)
  case (1 payload i frames)
  show ?case
  proof (cases "i < length payload")
    case True
    with "1.prems" have i1: "i + 1 < length payload"
      by (metis Suc_eq_plus1 Suc_lessI diff_self_eq_0 even_Suc less_diff_conv less_imp_diff_less
            odd_one One_nat_def diff_Suc_1 Suc_diff_Suc even_zero zero_less_diff)
    have d: "drop i payload = payload ! i # payload ! (i + 1) # drop (i + 2) payload"
      using True i1 by (metis Cons_nth_drop_Suc Suc_eq_plus1 add_2_eq_Suc')
    have e: "even (length payload - (i + 2))" using "1.prems"(2) i1 by auto
    have "concat (map (\<lambda>frame. [fst frame, snd frame])
            (splitFrames payload (i + 2) (frames @ [(payload ! i, payload ! (i + 1))])))
          = concat (map (\<lambda>frame. [fst frame, snd frame])
              (frames @ [(payload ! i, payload ! (i + 1))])) @ drop (i + 2) payload"
      using True i1 e by (intro "1.IH") simp_all
    then show ?thesis
      using True by (simp add: splitFrames.simps [of payload i] d)
  next
    case False
    then have "splitFrames payload i frames = frames"
      by (simp add: splitFrames.simps [of payload i])
    then show ?thesis using False "1.prems" by simp
  qed
qed

lemma xor_checksum_bytes:
  "\<forall>d\<in>set data. d < 256 \<Longrightarrow>
   foldl (\<lambda>checksum byte. checksum XOR unat byte) c (Uint8Array_from data) = foldl (XOR) c data"
  by (induction data arbitrary: c) (simp_all add: Uint8Array_from_def unat_byte)

lemma GridProtocol_decode_encode:
  assumes "GridProtocol_encode m = Inr frames"
  shows "GridProtocol_decode frames
         = (if m = [] then None else TextDecoder_decode (TextEncoder_encode m))"
proof -
  let ?data = "TextEncoder_encode m"
  define N where "N = length ?data"
  define ck where "ck = GridProtocol_calculateChecksum ?data"
  define pad where "pad = (if (N + 2) mod 2 \<noteq> 0 then [0::nat] else [])"
  define P where "P = N # map unat ?data @ ck # pad"
  have N: "N \<le> 200" and frames: "frames = splitFrames P 0 []"
    using assms
    by (auto simp: GridProtocol_encode_def Let_def MAX_MESSAGE_BYTES_def N_def ck_def P_def pad_def
        split: if_splits)
  have lenP: "length P = N + 2 + length pad" by (simp add: P_def N_def)
  have lpad: "length pad = (if even N then 0 else 1)"
    by (simp add: pad_def even_iff_mod_2_eq_zero)
  have ev: "even (length P)" unfolding lenP lpad by simp
  have bytes: "concat (map (\<lambda>frame. [fst frame, snd frame]) frames) = P"
    unfolding frames using flatten_splitFrames [of 0 P "[]"] ev by simp
  have ne: "length frames \<noteq> 0"
  proof
    assume "length frames = 0"
    then have "concat (map (\<lambda>frame. [fst frame, snd frame]) frames) = []" by simp
    then show False unfolding bytes by (simp add: P_def)
  qed
  have P0: "P ! 0 = N" by (simp add: P_def)
  show ?thesis
  proof (cases "m = []")
    case True
    then have "N = 0" by (simp add: N_def TextEncoder_encode_def)
    then show ?thesis
      using True ne by (simp add: GridProtocol_decode_def bytes P0 Let_def)
  next
    case False
    then have N0: "N \<noteq> 0" by (simp add: N_def TextEncoder_encode_Nil_iff)
    have ex: "\<not> length P < (if (N + 2) mod 2 = 0 then N + 2 else N + 2 + 1)"
      unfolding lenP lpad by (simp add: even_iff_mod_2_eq_zero)
    have sl: "slice P 1 (1 + N) = map unat ?data"
      by (simp add: slice_def P_def N_def)
    have "P ! (1 + N) = (map unat ?data @ ck # pad) ! N" by (simp add: P_def)
    also have "\<dots> = ck" by (simp add: nth_append N_def)
    finally have pk: "P ! (1 + N) = ck" .
    show ?thesis
      using False ne N0 N ex sl pk
      by (auto simp: GridProtocol_decode_def bytes P0 Let_def MAX_MESSAGE_BYTES_def
          Uint8Array_from_unat ck_def)
  qed
qed

lemma GridProtocol_encode_exists:
  "getByteLength m \<le> 200 \<Longrightarrow> \<exists>frames. GridProtocol_encode m = Inr frames"
  by (simp add: GridProtocol_encode_def getByteLength_def MAX_MESSAGE_BYTES_def Let_def)

lemma TextDecoder_decode_None_iff: "TextDecoder_decode bytes = None \<longleftrightarrow> utf8_decode bytes = None"
  by (simp add: TextDecoder_decode_def split: option.split)

text \<open>
  C9. \<open>GridProtocol.decode\<close> returns none for no frames and, with \<open>bytes\<close> the flattened
  frames, \<open>N\<close> the first byte and \<open>data\<close> the \<open>N\<close> bytes from offset 1, whenever \<open>N\<close> is 0 or
  above 200, fewer bytes are present than \<open>N + 2\<close> rounded up to an even number, the byte at
  offset \<open>1 + N\<close> differs from the checksum of \<open>data\<close>, or \<open>data\<close> is not UTF-8. The
  checksum is the XOR of the data bytes (of their values modulo 256, were they no bytes).
\<close>

theorem GridProtocol_decode_rejects:
  "GridProtocol_decode [] = None
   \<and> (frames \<noteq> []
        \<and> bytes = concat (map (\<lambda>frame. [fst frame, snd frame]) frames)
        \<and> N = bytes ! 0 \<and> data = slice bytes 1 (1 + N)
        \<and> (N = 0 \<or> 200 < N \<or> length bytes < 2 * ((N + 3) div 2)
             \<or> bytes ! (1 + N) \<noteq> GridProtocol_calculateChecksum (Uint8Array_from data)
             \<or> utf8_decode (Uint8Array_from data) = None)
        \<longrightarrow> GridProtocol_decode frames = None)
   \<and> ((\<forall>d\<in>set data. d < 256)
        \<longrightarrow> GridProtocol_calculateChecksum (Uint8Array_from data) = foldl (XOR) 0 data)"
proof -
  have 1: "GridProtocol_decode [] = None"
    by (simp add: GridProtocol_decode_def)
  have r: "(if (N + 2) mod 2 = 0 then N + 2 else N + 2 + 1) = 2 * ((N + 3) div 2)" for N :: nat
    by presburger
  have 2: "GridProtocol_decode frames = None"
    if "frames \<noteq> []" "bytes = concat (map (\<lambda>frame. [fst frame, snd frame]) frames)"
      "N = bytes ! 0" "data = slice bytes 1 (1 + N)"
      "N = 0 \<or> 200 < N \<or> length bytes < 2 * ((N + 3) div 2)
       \<or> bytes ! (1 + N) \<noteq> GridProtocol_calculateChecksum (Uint8Array_from data)
       \<or> utf8_decode (Uint8Array_from data) = None"
    using that(1,5) r [of N] unfolding that(4) that(3) that(2)
    by (auto simp: GridProtocol_decode_def Let_def MAX_MESSAGE_BYTES_def TextDecoder_decode_None_iff)
  have 3: "GridProtocol_calculateChecksum (Uint8Array_from data) = foldl (XOR) 0 data"
    if "\<forall>d\<in>set data. d < 256"
    unfolding GridProtocol_calculateChecksum_def using that by (rule xor_checksum_bytes)
  from 1 2 3 show ?thesis by blast
qed

theorem GridProtocol_decode_rejects_witness:
  "GridProtocol_decode [(1, 65), (64, 0)] = None
   \<and> [1, 65, 64, 0] ! (1 + 1) \<noteq> GridProtocol_calculateChecksum (Uint8Array_from [65])
   \<and> GridProtocol_calculateChecksum (Uint8Array_from [65]) = foldl (XOR) 0 [65]"
proof -
  have a: "[1, 65, 64, 0] = concat (map (\<lambda>frame. [fst frame, snd frame]) [(1, 65), (64, 0::nat)])"
    by simp
  have b: "(1::nat) = [1, 65, 64, 0] ! 0" by simp
  have c: "[65] = slice [1, 65, 64, 0::nat] 1 (1 + 1)" by (simp add: slice_def)
  have d: "[1, 65, 64, 0] ! (1 + 1) \<noteq> GridProtocol_calculateChecksum (Uint8Array_from [65])"
    by (simp add: GridProtocol_calculateChecksum_def Uint8Array_from_def)
  have e: "\<forall>d\<in>set [65::nat]. d < 256" by simp
  show ?thesis
    using GridProtocol_decode_rejects [of "[(1, 65), (64, 0)]" "[1, 65, 64, 0]" 1 "[65]"] a b c d e
    by blast
qed

text \<open>
  C10, as the code has it. For every message \<open>m\<close> of 1 to 200 UTF-8 bytes that has no unpaired
  surrogate and does not begin with U+FEFF, \<open>GridProtocol.encode m\<close> succeeds and
  \<open>GridProtocol.decode\<close> of its frames returns \<open>m\<close>, whether or not a padding byte was added.
\<close>

theorem GridProtocol_round_trip:
  assumes "getByteLength m \<le> 200" "m \<noteq> []" "well_formed m" "hd m \<noteq> 0xFEFF"
  shows "\<exists>frames. GridProtocol_encode m = Inr frames \<and> GridProtocol_decode frames = Some m"
proof -
  obtain frames where f: "GridProtocol_encode m = Inr frames"
    using GridProtocol_encode_exists [OF assms(1)] by blast
  have "GridProtocol_decode frames = TextDecoder_decode (TextEncoder_encode m)"
    using GridProtocol_decode_encode [OF f] assms(2) by simp
  also have "\<dots> = Some m"
    using assms(3,4) by (intro TextDecoder_TextEncoder) simp_all
  finally show ?thesis using f by blast
qed

text \<open>The witness is the letter \<open>A\<close>: a payload of three bytes, padded to two frames.\<close>

theorem GridProtocol_round_trip_witness:
  "GridProtocol_encode [0x41] = Inr [(1, 65), (65, 0)]
   \<and> GridProtocol_decode [(1, 65), (65, 0)] = Some [0x41]"
proof -
  have len: "getByteLength [0x41] \<le> 200"
    by (simp add: getByteLength_def TextEncoder_encode_def surrogate_defs utf8_bytes_def)
  have wf: "well_formed [0x41]" by (simp add: surrogate_defs)
  have enc: "GridProtocol_encode [0x41] = Inr [(1, 65), (65, 0)]"
    by (simp add: GridProtocol_encode_def TextEncoder_encode_def surrogate_defs utf8_bytes_def
        GridProtocol_calculateChecksum_def MAX_MESSAGE_BYTES_def splitFrames.simps)
  show ?thesis
    using GridProtocol_round_trip [OF len _ wf] enc by simp
qed

text \<open>
  C10 as stated fails on a message that begins with U+FEFF, which the \<open>TextDecoder\<close> drops,
  and on an unpaired surrogate, which the \<open>TextEncoder\<close> replaces by U+FFFD.
\<close>

theorem GridProtocol_round_trip_counterexample:
  "getByteLength [0xFEFF, 0x41] = 4
   \<and> GridProtocol_encode [0xFEFF, 0x41] = Inr [(4, 0xEF), (0xBB, 0xBF), (0x41, 0xAA)]
   \<and> GridProtocol_decode [(4, 0xEF), (0xBB, 0xBF), (0x41, 0xAA)] = Some [0x41]
   \<and> getByteLength [0xD800] = 3
   \<and> GridProtocol_encode [0xD800] = Inr [(3, 0xEF), (0xBF, 0xBD), (0xED, 0)]
   \<and> GridProtocol_decode [(3, 0xEF), (0xBF, 0xBD), (0xED, 0)] = Some [0xFFFD]"
proof -
  have l1: "getByteLength [0xFEFF, 0x41] = 4"
    by (simp add: getByteLength_def TextEncoder_encode_def surrogate_defs utf8_bytes_def)
  have l2: "getByteLength [0xD800] = 3"
    by (simp add: getByteLength_def TextEncoder_encode_def surrogate_defs utf8_bytes_def)
  have e1: "GridProtocol_encode [0xFEFF, 0x41] = Inr [(4, 0xEF), (0xBB, 0xBF), (0x41, 0xAA)]"
    by (simp add: GridProtocol_encode_def TextEncoder_encode_def surrogate_defs utf8_bytes_def
        GridProtocol_calculateChecksum_def MAX_MESSAGE_BYTES_def splitFrames.simps)
  have e2: "GridProtocol_encode [0xD800] = Inr [(3, 0xEF), (0xBF, 0xBD), (0xED, 0)]"
    by (simp add: GridProtocol_encode_def TextEncoder_encode_def surrogate_defs utf8_bytes_def
        GridProtocol_calculateChecksum_def MAX_MESSAGE_BYTES_def splitFrames.simps)
  have d1: "TextDecoder_decode (TextEncoder_encode [0xFEFF, 0x41]) = Some [0x41]"
    by (simp add: TextDecoder_decode_def TextEncoder_utf8_decode surrogate_defs utf16_units_def)
  have d2: "TextDecoder_decode (TextEncoder_encode [0xD800]) = Some [0xFFFD]"
    by (simp add: TextDecoder_decode_def TextEncoder_utf8_decode surrogate_defs utf16_units_def)
  show ?thesis
    using l1 l2 e1 e2 d1 d2 GridProtocol_decode_encode [OF e1] GridProtocol_decode_encode [OF e2]
    by simp
qed

section \<open>The receivers: the claims\<close>

lemma findStartMarker_None_prefix:
  assumes "findStartMarker (ys @ zs) = None"
  shows "findStartMarker ys = None"
proof (rule findStartMarker_NoneI)
  fix j assume j: "j + 8 \<le> length ys"
  then have "\<not> allOnes (ys @ zs) j"
    using assms by (intro findStartMarker_NoneD) simp_all
  then show "\<not> allOnes ys j"
    using allOnes_append_left [OF j] by simp
qed

lemma decode_no_marker: "findStartMarker bs = None \<Longrightarrow> decode bs = None"
  by (simp add: decode_def)

lemma handleBitsState_no_frame:
  assumes "now - lastBitTime r \<ge> bitInterval config" "decode (bits r @ [b]) = None"
  shows "handleBitsState config partialDecoder (Some b) now r =
     (if length (bits r @ [b]) > MAX_BITS_TIMEOUT
      then (reset (r\<lparr>bits := bits r @ [b], lastBitTime := now\<rparr>),
            [receivingStatus partialDecoder (bits r @ [b]),
             OnStatusChange (StatusError ''timeout''),
             OnError Timeout ''Receive timeout: too many bits without valid message'',
             OnStatusChange StatusIdle])
      else (r\<lparr>bits := bits r @ [b], lastBitTime := now\<rparr>,
            [receivingStatus partialDecoder (bits r @ [b])]))"
  using assms
  by (simp add: handleBitsState_def Let_def tryDecode_def handleTimeout_def receivingStatus_def)

lemma poll_append:
  "poll config pd (ts1 @ ts2) r =
     (let (r1, out1) = poll config pd ts1 r; (r2, out2) = poll config pd ts2 r1
      in (r2, out1 @ out2))"
  by (induction ts1 arbitrary: r) (auto simp: Let_def split: prod.splits)

lemma spaced_append:
  "spaced interval t (ts1 @ ts2) \<longleftrightarrow>
   spaced interval t ts1 \<and> spaced interval (if ts1 = [] then t else fst (last ts1)) ts2"
  by (induction ts1 arbitrary: t) auto

text \<open>While no marker has come and the buffer is within bounds, the bits state only collects.\<close>

lemma poll_collects:
  assumes "state r = Bits" "spaced (bitInterval config) (lastBitTime r) ticks"
    "map (\<lambda>tick. snd (snd tick)) ticks = map Some xs"
    "findStartMarker (bits r @ xs) = None" "length (bits r @ xs) \<le> MAX_BITS_TIMEOUT"
  shows "fst (poll config pd ticks r)
           = r\<lparr>bits := bits r @ xs,
                lastBitTime := (if ticks = [] then lastBitTime r else fst (last ticks))\<rparr>
         \<and> (\<forall>e\<in>set (snd (poll config pd ticks r)). \<exists>bs. e = receivingStatus pd bs)"
  using assms
proof (induction ticks arbitrary: r xs)
  case Nil
  then show ?case by simp
next
  case (Cons tick ticks)
  obtain now p s where tick: "tick = (now, p, s)" by (cases tick)
  obtain x xs' where xs: "xs = x # xs'" and s: "s = Some x"
    and rest: "map (\<lambda>tick. snd (snd tick)) ticks = map Some xs'"
    using Cons.prems(3) tick by (cases xs) auto
  let ?r1 = "r\<lparr>bits := bits r @ [x], lastBitTime := now\<rparr>"
  have due: "now - lastBitTime r \<ge> bitInterval config"
    and sp: "spaced (bitInterval config) now ticks"
    using Cons.prems(2) tick by simp_all
  have "findStartMarker ((bits r @ [x]) @ xs') = None" using Cons.prems(4) xs by simp
  then have "findStartMarker (bits r @ [x]) = None" by (rule findStartMarker_None_prefix)
  then have none: "decode (bits r @ [x]) = None" by (rule decode_no_marker)
  have short: "\<not> length (bits r @ [x]) > MAX_BITS_TIMEOUT" using Cons.prems(5) xs by simp
  have step: "processFrame config pd p s now r = (?r1, [receivingStatus pd (bits r @ [x])])"
    using Cons.prems(1) short unfolding s
    by (simp add: processFrame_def handleBitsState_no_frame [OF due none])
  have IH: "fst (poll config pd ticks ?r1)
           = ?r1\<lparr>bits := bits ?r1 @ xs',
                lastBitTime := (if ticks = [] then lastBitTime ?r1 else fst (last ticks))\<rparr>
         \<and> (\<forall>e\<in>set (snd (poll config pd ticks ?r1)). \<exists>bs. e = receivingStatus pd bs)"
    using Cons.prems(1,4,5) sp rest xs by (intro Cons.IH) simp_all
  show ?case
    using IH unfolding tick xs by (auto simp: step Let_def split: prod.splits)
qed

lemma alternating_no_marker: "findStartMarker (map (\<lambda>k. k mod 2) [0..<n]) = None"
  unfolding findStartMarker_None_iff
proof (intro allI impI)
  fix i assume "i + 8 \<le> length (map (\<lambda>k. k mod 2) [0..<n])"
  then have i: "i + 8 \<le> n" by simp
  have "i mod 2 < 8" by simp
  moreover have "map (\<lambda>k. k mod 2) [0..<n] ! (i + i mod 2) \<noteq> 1"
    using i by (simp add: mod_add_right_eq)
  ultimately show "\<exists>j<8. map (\<lambda>k. k mod 2) [0..<n] ! (i + j) \<noteq> 1" by blast
qed

lemma processFrame_timeout:
  assumes "state r = Bits" "now - lastBitTime r \<ge> bitInterval config"
    "length (bits r @ [b]) > MAX_BITS_TIMEOUT" "decode (bits r @ [b]) = None"
  shows "processFrame config pd detectPilot (Some b) now r
         = (reset (r\<lparr>bits := bits r @ [b], lastBitTime := now\<rparr>),
            [receivingStatus pd (bits r @ [b]),
             OnStatusChange (StatusError ''timeout''),
             OnError Timeout ''Receive timeout: too many bits without valid message'',
             OnStatusChange StatusIdle])"
  using assms(1,3) by (simp add: processFrame_def handleBitsState_no_frame [OF assms(2,4)])

lemma poll_timeout:
  assumes st: "state r = Bits" and empty: "bits r = []"
    and sp: "spaced (bitInterval config) (lastBitTime r) ticks"
    and samples: "map (\<lambda>tick. snd (snd tick)) ticks = map Some xs"
    and len: "length xs = MAX_BITS_TIMEOUT + 1"
    and no: "findStartMarker xs = None"
  shows "state (fst (poll config pd ticks r)) = Idle \<and> bits (fst (poll config pd ticks r)) = []
         \<and> (\<exists>pre. snd (poll config pd ticks r)
                    = pre @ [OnStatusChange (StatusError ''timeout''),
                             OnError Timeout ''Receive timeout: too many bits without valid message'',
                             OnStatusChange StatusIdle]
                  \<and> (\<forall>e\<in>set pre. \<exists>bs. e = receivingStatus pd bs))"
proof -
  have lt: "length ticks = MAX_BITS_TIMEOUT + 1"
    using arg_cong [OF samples, of length] len by simp
  then have tne: "ticks \<noteq> []" and xne: "xs \<noteq> []" using len by auto
  define ts t ys y where "ts = butlast ticks" and "t = last ticks"
    and "ys = butlast xs" and "y = last xs"
  have ticks: "ticks = ts @ [t]" and xs: "xs = ys @ [y]"
    using tne xne by (simp_all add: ts_def t_def ys_def y_def)
  have lts: "length ts = length ys" using lt len by (simp add: ts_def ys_def)
  have s1: "map (\<lambda>tick. snd (snd tick)) ts = map Some ys" and s2: "snd (snd t) = Some y"
    using samples lts unfolding ticks xs by simp_all
  obtain now p where t: "t = (now, p, Some y)" using s2 by (cases t) auto
  have sp1: "spaced (bitInterval config) (lastBitTime r) ts"
    and sp2: "spaced (bitInterval config) (if ts = [] then lastBitTime r else fst (last ts)) [t]"
    using sp unfolding ticks spaced_append by simp_all
  have no1: "findStartMarker (bits r @ ys) = None"
    using no unfolding xs empty by (simp add: findStartMarker_None_prefix)
  have l1: "length (bits r @ ys) \<le> MAX_BITS_TIMEOUT" using len xs empty by simp
  define r1 where "r1 = fst (poll config pd ts r)"
  define o1 where "o1 = snd (poll config pd ts r)"
  have r1: "r1 = r\<lparr>bits := bits r @ ys,
                    lastBitTime := (if ts = [] then lastBitTime r else fst (last ts))\<rparr>"
    and o1: "\<forall>e\<in>set o1. \<exists>bs. e = receivingStatus pd bs"
    using poll_collects [OF st sp1 s1 no1 l1, of pd] by (simp_all add: r1_def o1_def)
  have pr: "poll config pd ts r = (r1, o1)" by (simp add: r1_def o1_def)
  have st1: "state r1 = Bits" using st r1 by simp
  have due: "now - lastBitTime r1 \<ge> bitInterval config" using sp2 r1 t by simp
  have b1: "bits r1 @ [y] = xs" using r1 xs empty by simp
  have big: "length (bits r1 @ [y]) > MAX_BITS_TIMEOUT" unfolding b1 using len by simp
  have none: "decode (bits r1 @ [y]) = None" unfolding b1 using no by (rule decode_no_marker)
  have "poll config pd ticks r
        = (reset (r1\<lparr>bits := bits r1 @ [y], lastBitTime := now\<rparr>),
           o1 @ [receivingStatus pd (bits r1 @ [y]),
             OnStatusChange (StatusError ''timeout''),
             OnError Timeout ''Receive timeout: too many bits without valid message'',
             OnStatusChange StatusIdle])"
    unfolding ticks poll_append t
    by (simp add: pr processFrame_timeout [OF st1 due big none])
  then have "fst (poll config pd ticks r) = reset (r1\<lparr>bits := bits r1 @ [y], lastBitTime := now\<rparr>)"
    and "snd (poll config pd ticks r)
         = (o1 @ [receivingStatus pd (bits r1 @ [y])])
           @ [OnStatusChange (StatusError ''timeout''),
              OnError Timeout ''Receive timeout: too many bits without valid message'',
              OnStatusChange StatusIdle]"
    by simp_all
  moreover have "\<forall>e\<in>set (o1 @ [receivingStatus pd (bits r1 @ [y])]). \<exists>bs. e = receivingStatus pd bs"
    using o1 by auto
  ultimately show ?thesis by (simp add: reset_def)
qed

lemma spaced_unit_steps: "spaced 1 (real a) (map (\<lambda>k. (real (k + 1), p, f k)) [a..<n])"
proof (induction "n - a" arbitrary: a)
  case 0
  then show ?case by simp
next
  case (Suc d)
  then have "a < n" by simp
  then have "[a..<n] = a # [Suc a..<n]" by (rule upt_conv_Cons)
  moreover have "spaced 1 (real (Suc a)) (map (\<lambda>k. (real (k + 1), p, f k)) [Suc a..<n])"
    using Suc by (intro Suc.hyps(1)) simp
  ultimately show ?case by simp
qed

text \<open>
  C4. In the bits state, when a sample is due and the sampled bit brings the buffer above
  2000 bits while \<open>decode\<close> of the buffer is none, the frame reports the progress, then the
  error status \<open>timeout\<close>, calls \<open>onError\<close> with type \<open>timeout\<close>, reports \<open>idle\<close>, and leaves
  the receiver idle with an empty buffer. Any 2001 samples without a marker, taken from an
  empty buffer at due times, end so; 2001 alternating bits hold no marker.
\<close>

theorem bits_state_timeout:
  "(state r = Bits \<and> now - lastBitTime r \<ge> bitInterval config
      \<and> length (bits r @ [b]) > MAX_BITS_TIMEOUT \<and> decode (bits r @ [b]) = None
    \<longrightarrow> processFrame config pd detectPilot (Some b) now r
          = (reset (r\<lparr>bits := bits r @ [b], lastBitTime := now\<rparr>),
             [receivingStatus pd (bits r @ [b]),
              OnStatusChange (StatusError ''timeout''),
              OnError Timeout ''Receive timeout: too many bits without valid message'',
              OnStatusChange StatusIdle])
        \<and> state (fst (processFrame config pd detectPilot (Some b) now r)) = Idle
        \<and> bits (fst (processFrame config pd detectPilot (Some b) now r)) = [])
   \<and> (state r0 = Bits \<and> bits r0 = [] \<and> spaced (bitInterval config) (lastBitTime r0) ticks
      \<and> map (\<lambda>tick. snd (snd tick)) ticks = map Some xs
      \<and> length xs = 2001 \<and> findStartMarker xs = None
    \<longrightarrow> state (fst (poll config pd ticks r0)) = Idle \<and> bits (fst (poll config pd ticks r0)) = []
        \<and> (\<exists>pre. snd (poll config pd ticks r0)
                    = pre @ [OnStatusChange (StatusError ''timeout''),
                             OnError Timeout ''Receive timeout: too many bits without valid message'',
                             OnStatusChange StatusIdle]
                  \<and> (\<forall>e\<in>set pre. \<exists>bs. e = receivingStatus pd bs)))
   \<and> findStartMarker (map (\<lambda>k. k mod 2) [0..<2001]) = None"
proof -
  have 1: "processFrame config pd detectPilot (Some b) now r
          = (reset (r\<lparr>bits := bits r @ [b], lastBitTime := now\<rparr>),
             [receivingStatus pd (bits r @ [b]),
              OnStatusChange (StatusError ''timeout''),
              OnError Timeout ''Receive timeout: too many bits without valid message'',
              OnStatusChange StatusIdle])
        \<and> state (fst (processFrame config pd detectPilot (Some b) now r)) = Idle
        \<and> bits (fst (processFrame config pd detectPilot (Some b) now r)) = []"
    if "state r = Bits" "now - lastBitTime r \<ge> bitInterval config"
      "length (bits r @ [b]) > MAX_BITS_TIMEOUT" "decode (bits r @ [b]) = None"
    using processFrame_timeout [OF that, of pd detectPilot] by (simp add: reset_def)
  have 2: "state (fst (poll config pd ticks r0)) = Idle \<and> bits (fst (poll config pd ticks r0)) = []
        \<and> (\<exists>pre. snd (poll config pd ticks r0)
                    = pre @ [OnStatusChange (StatusError ''timeout''),
                             OnError Timeout ''Receive timeout: too many bits without valid message'',
                             OnStatusChange StatusIdle]
                  \<and> (\<forall>e\<in>set pre. \<exists>bs. e = receivingStatus pd bs))"
    if "state r0 = Bits" "bits r0 = []" "spaced (bitInterval config) (lastBitTime r0) ticks"
      "map (\<lambda>tick. snd (snd tick)) ticks = map Some xs" "length xs = 2001"
      "findStartMarker xs = None"
    using that by (intro poll_timeout) (simp_all add: MAX_BITS_TIMEOUT_def)
  from 1 2 alternating_no_marker [of 2001] show ?thesis by blast
qed

theorem bits_state_timeout_witness:
  "decode (map (\<lambda>k. k mod 2) [0..<2000] @ [0]) = None
   \<and> processFrame \<lparr>bitMs = 1 / 2, guardMs = 1 / 2, gapMs = None\<rparr> (\<lambda>bs. None) False (Some 0) 1
        \<lparr>state = Bits, bits = map (\<lambda>k. k mod 2) [0..<2000], gapStartTime = 0, lastBitTime = 0\<rparr>
      = (\<lparr>state = Idle, bits = [], gapStartTime = 0, lastBitTime = 0\<rparr>,
         [OnStatusChange (StatusReceiving 1 None),
          OnStatusChange (StatusError ''timeout''),
          OnError Timeout ''Receive timeout: too many bits without valid message'',
          OnStatusChange StatusIdle])
   \<and> state (fst (poll \<lparr>bitMs = 1 / 2, guardMs = 1 / 2, gapMs = None\<rparr> (\<lambda>bs. None)
                  (map (\<lambda>k. (real (k + 1), False, Some (k mod 2))) [0..<2001])
                  \<lparr>state = Bits, bits = [], gapStartTime = 0, lastBitTime = 0\<rparr>)) = Idle"
proof -
  let ?config = "\<lparr>bitMs = 1 / 2, guardMs = 1 / 2, gapMs = None\<rparr>"
  let ?full = "\<lparr>state = Bits, bits = map (\<lambda>k. k mod 2) [0..<2000], gapStartTime = 0, lastBitTime = 0\<rparr>"
  let ?idle = "\<lparr>state = Bits, bits = [], gapStartTime = 0, lastBitTime = 0\<rparr>"
  let ?ticks = "map (\<lambda>k. (real (k + 1), False, Some (k mod 2))) [0..<2001]"
  have alt: "map (\<lambda>k. k mod 2) [0..<2000] @ [0] = map (\<lambda>k. k mod 2) [0..<2001]"
  proof -
    have "[0..<2001] = [0..<2000] @ [2000]"
      using upt_Suc_append [of 0 2000] by simp
    then show ?thesis by simp
  qed
  have none: "decode (map (\<lambda>k. k mod 2) [0..<2000] @ [0]) = None"
    unfolding alt using alternating_no_marker by (rule decode_no_marker)
  have sp: "spaced (bitInterval ?config) (lastBitTime ?idle) ?ticks"
    using spaced_unit_steps [of 0 False "\<lambda>k. Some (k mod 2)" 2001] by (simp add: bitInterval_def)
  have samples: "map (\<lambda>tick. snd (snd tick)) ?ticks = map Some (map (\<lambda>k. k mod 2) [0..<2001])"
    by (simp add: comp_def)
  note T = bits_state_timeout [where r = ?full and now = 1 and config = ?config and b = 0
        and pd = "\<lambda>bs. None" and detectPilot = False and ?r0.0 = ?idle and ticks = ?ticks
        and xs = "map (\<lambda>k. k mod 2) [0..<2001]"]
  have c1: "processFrame ?config (\<lambda>bs. None) False (Some 0) 1 ?full
          = (reset (?full\<lparr>bits := bits ?full @ [0], lastBitTime := 1\<rparr>),
             [receivingStatus (\<lambda>bs. None) (bits ?full @ [0]),
              OnStatusChange (StatusError ''timeout''),
              OnError Timeout ''Receive timeout: too many bits without valid message'',
              OnStatusChange StatusIdle])
        \<and> state (fst (processFrame ?config (\<lambda>bs. None) False (Some 0) 1 ?full)) = Idle
        \<and> bits (fst (processFrame ?config (\<lambda>bs. None) False (Some 0) 1 ?full)) = []"
  proof (rule T [THEN conjunct1, THEN mp])
    have "state ?full = Bits" by simp
    moreover have "1 - lastBitTime ?full \<ge> bitInterval ?config" by (simp add: bitInterval_def)
    moreover have "length (bits ?full @ [0]) > MAX_BITS_TIMEOUT" by (simp add: MAX_BITS_TIMEOUT_def)
    moreover have "decode (bits ?full @ [0]) = None" using none by simp
    ultimately show "state ?full = Bits \<and> 1 - lastBitTime ?full \<ge> bitInterval ?config
        \<and> length (bits ?full @ [0]) > MAX_BITS_TIMEOUT \<and> decode (bits ?full @ [0]) = None"
      by blast
  qed
  have c2: "state (fst (poll ?config (\<lambda>bs. None) ?ticks ?idle)) = Idle
        \<and> bits (fst (poll ?config (\<lambda>bs. None) ?ticks ?idle)) = []
        \<and> (\<exists>pre. snd (poll ?config (\<lambda>bs. None) ?ticks ?idle)
                    = pre @ [OnStatusChange (StatusError ''timeout''),
                             OnError Timeout ''Receive timeout: too many bits without valid message'',
                             OnStatusChange StatusIdle]
                  \<and> (\<forall>e\<in>set pre. \<exists>bs. e = receivingStatus (\<lambda>bs. None) bs))"
  proof (rule T [THEN conjunct2, THEN conjunct1, THEN mp])
    have "state ?idle = Bits" "bits ?idle = []" by simp_all
    moreover have "length (map (\<lambda>k. k mod 2) [0..<2001]) = 2001" by simp
    ultimately show "state ?idle = Bits \<and> bits ?idle = []
        \<and> spaced (bitInterval ?config) (lastBitTime ?idle) ?ticks
        \<and> map (\<lambda>tick. snd (snd tick)) ?ticks = map Some (map (\<lambda>k. k mod 2) [0..<2001])
        \<and> length (map (\<lambda>k. k mod 2) [0..<2001]) = 2001
        \<and> findStartMarker (map (\<lambda>k. k mod 2) [0..<2001]) = None"
      using sp samples alternating_no_marker [of 2001] by blast
  qed
  have r: "processFrame ?config (\<lambda>bs. None) False (Some 0) 1 ?full
      = (\<lparr>state = Idle, bits = [], gapStartTime = 0, lastBitTime = 0\<rparr>,
         [OnStatusChange (StatusReceiving 1 None),
          OnStatusChange (StatusError ''timeout''),
          OnError Timeout ''Receive timeout: too many bits without valid message'',
          OnStatusChange StatusIdle])"
    using c1 by (simp add: reset_def receivingStatus_def PARTIAL_DECODE_MIN_BITS_def)
  from none r c2 show ?thesis by blast
qed

lemma decode_A:
  "decode [1, 0, 1, 0, 1, 0, 1, 0, 1, 1, 1, 1, 1, 1, 1, 1, 0, 0, 0, 0, 0, 0, 0, 1,
           0, 1, 0, 0, 0, 0, 0, 1, 0, 1, 0, 0, 0, 0, 0, 1] = Some [0x41]"
proof -
  have "encode [0x41] = Inr [1, 0, 1, 0, 1, 0, 1, 0, 1, 1, 1, 1, 1, 1, 1, 1, 0, 0, 0, 0, 0, 0, 0, 1,
           0, 1, 0, 0, 0, 0, 0, 1, 0, 1, 0, 0, 0, 0, 0, 1]"
    by code_simp
  then have "decode [1, 0, 1, 0, 1, 0, 1, 0, 1, 1, 1, 1, 1, 1, 1, 1, 0, 0, 0, 0, 0, 0, 0, 1,
           0, 1, 0, 0, 0, 0, 0, 1, 0, 1, 0, 0, 0, 0, 0, 1]
        = TextDecoder_decode (TextEncoder_encode [0x41])"
    using decode_encode [of "[0x41]"] by simp
  also have "\<dots> = Some [0x41]"
    by (rule TextDecoder_TextEncoder) (simp_all add: surrogate_defs)
  finally show ?thesis .
qed

text \<open>
  The ends of a session that the code reaches by design. A successful decode ends idle with
  an empty buffer in both receivers, and so does the timeout. In \<open>BitReceiver\<close> a decode
  that returns none is no end: \<open>tryDecode\<close> changes nothing and the receiver keeps
  collecting until the timeout.
\<close>

lemma session_end_by_design:
  "(decode (bits r) = Some message
      \<longrightarrow> tryDecode r = (reset r, [OnStatusChange StatusSuccess, OnMessage message,
                                   OnStatusChange StatusIdle])
          \<and> state (fst (tryDecode r)) = Idle \<and> bits (fst (tryDecode r)) = [])
   \<and> (decode (bits r') = None \<longrightarrow> tryDecode r' = (r', []))
   \<and> state (fst (handleTimeout r)) = Idle \<and> bits (fst (handleTimeout r)) = []
   \<and> snd (handleTimeout r)
       = [OnStatusChange (StatusError ''timeout''),
          OnError Timeout ''Receive timeout: too many bits without valid message'',
          OnStatusChange StatusIdle]
   \<and> (decode (m_bits m) = Some message
      \<longrightarrow> Manual_tryDecode m
            = (\<lparr>m_state = Idle, m_bits = []\<rparr>,
               [OnStatusChange StatusSuccess, OnMessage message, OnStatusChange StatusIdle]))"
  by (simp add: tryDecode_def handleTimeout_def reset_def Manual_tryDecode_def Manual_reset_def)

text \<open>
  C3: a defect of the code. The claim has \<open>ManualBitReceiver.tryDecode\<close> leave the state idle
  and the bits empty whether the decode succeeds or fails. With the 40 alternating bits of
  the repository's test in the buffer, \<open>decode\<close> is none and \<open>tryDecode\<close> reports the
  error status and the \<open>checksum\<close> error, but the receiver is still in the bits state with
  its 40 bits: the failure branch has no \<open>reset()\<close>. The same method on the bits of \<open>A\<close>
  ends idle and empty, as the claim says, and so does \<open>handleTimeout\<close> after its error.
\<close>

theorem Manual_tryDecode_failure_keeps_session:
  "decode [0, 1, 0, 1, 0, 1, 0, 1, 0, 1, 0, 1, 0, 1, 0, 1, 0, 1, 0, 1,
           0, 1, 0, 1, 0, 1, 0, 1, 0, 1, 0, 1, 0, 1, 0, 1, 0, 1, 0, 1] = None
   \<and> Manual_tryDecode
        \<lparr>m_state = Bits,
         m_bits = [0, 1, 0, 1, 0, 1, 0, 1, 0, 1, 0, 1, 0, 1, 0, 1, 0, 1, 0, 1,
                   0, 1, 0, 1, 0, 1, 0, 1, 0, 1, 0, 1, 0, 1, 0, 1, 0, 1, 0, 1]\<rparr>
     = (\<lparr>m_state = Bits,
         m_bits = [0, 1, 0, 1, 0, 1, 0, 1, 0, 1, 0, 1, 0, 1, 0, 1, 0, 1, 0, 1,
                   0, 1, 0, 1, 0, 1, 0, 1, 0, 1, 0, 1, 0, 1, 0, 1, 0, 1, 0, 1]\<rparr>,
        [OnStatusChange (StatusError ''decode failed''),
         OnError Checksum ''Checksum verification failed''])
   \<and> Manual_tryDecode
        \<lparr>m_state = Bits,
         m_bits = [1, 0, 1, 0, 1, 0, 1, 0, 1, 1, 1, 1, 1, 1, 1, 1, 0, 0, 0, 0, 0, 0, 0, 1,
                   0, 1, 0, 0, 0, 0, 0, 1, 0, 1, 0, 0, 0, 0, 0, 1]\<rparr>
     = (\<lparr>m_state = Idle, m_bits = []\<rparr>,
        [OnStatusChange StatusSuccess, OnMessage [0x41], OnStatusChange StatusIdle])
   \<and> handleTimeout
        \<lparr>state = Bits,
         bits = [0, 1, 0, 1, 0, 1, 0, 1, 0, 1, 0, 1, 0, 1, 0, 1, 0, 1, 0, 1,
                 0, 1, 0, 1, 0, 1, 0, 1, 0, 1, 0, 1, 0, 1, 0, 1, 0, 1, 0, 1],
         gapStartTime = 0, lastBitTime = 0\<rparr>
     = (\<lparr>state = Idle, bits = [], gapStartTime = 0, lastBitTime = 0\<rparr>,
        [OnStatusChange (StatusError ''timeout''),
         OnError Timeout ''Receive timeout: too many bits without valid message'',
         OnStatusChange StatusIdle])"
proof -
  have none: "decode [0, 1, 0, 1, 0, 1, 0, 1, 0, 1, 0, 1, 0, 1, 0, 1, 0, 1, 0, 1,
           0, 1, 0, 1, 0, 1, 0, 1, 0, 1, 0, 1, 0, 1, 0, 1, 0, 1, 0, 1] = None"
    by code_simp
  show ?thesis
    using none decode_A
    by (simp add: Manual_tryDecode_def Manual_reset_def handleTimeout_def reset_def)
qed

section \<open>The partial decode\<close>

lemma TextDecoder_decode_Nil: "TextDecoder_decode [] = Some []"
  by (simp add: TextDecoder_decode_def utf8_decode_def utf8_initial_def)

lemma utf8_preview_longest:
  "\<exists>k\<le>n. TextDecoder_decode (take k bytes) = Some (utf8_preview bytes n)
          \<and> (\<forall>k'. k < k' \<and> k' \<le> n \<longrightarrow> TextDecoder_decode (take k' bytes) = None)"
proof (induction n)
  case 0
  show ?case by (simp add: TextDecoder_decode_Nil)
next
  case (Suc n)
  show ?case
  proof (cases "TextDecoder_decode (take (Suc n) bytes)")
    case (Some t)
    then have "TextDecoder_decode (take (Suc n) bytes) = Some (utf8_preview bytes (Suc n))"
      by simp
    then show ?thesis by (intro exI [of _ "Suc n"]) auto
  next
    case None
    obtain k where k: "k \<le> n" "TextDecoder_decode (take k bytes) = Some (utf8_preview bytes n)"
      "\<forall>k'. k < k' \<and> k' \<le> n \<longrightarrow> TextDecoder_decode (take k' bytes) = None"
      using Suc by blast
    have "\<forall>k'. k < k' \<and> k' \<le> Suc n \<longrightarrow> TextDecoder_decode (take k' bytes) = None"
      using k(3) None by (metis le_SucE)
    then show ?thesis using k(1,2) None by (intro exI [of _ k]) auto
  qed
qed

lemma decodePartial_at:
  assumes "findStartMarker bs = Some i" "a = i + 8" "N = bitsToNumber (slice bs a (a + 8))"
    "data = Uint8Array_from (availableBytes bs (a + 8) N)"
  shows "decodePartial bs =
     (if length bs < 32 then None
      else if length bs < a + 8 then None
      else if N > 200 \<or> N = 0 then None
      else Some (utf8_preview data (length data)))"
  using assms(1) unfolding decodePartial_def assms(2,3,4)
  by (simp add: Let_def slice_length_lt MAX_MESSAGE_BYTES_def)

text \<open>
  C2, on the model of \<open>decodePartial\<close> taken from the spec. \<open>decodePartial\<close> returns none on
  fewer than 32 bits, on a buffer without a marker, and when the length field behind the
  first marker is cut short, 0 or above 200. Otherwise it returns a text: with \<open>data\<close> the
  complete data bytes that are present (at most \<open>M\<close> of them, no checksum read), the text is
  the decoding of the longest prefix of \<open>data\<close> that decodes, so that a trailing incomplete
  sequence is left out.
\<close>

theorem decodePartial_preview:
  "(length as < 32 \<longrightarrow> decodePartial as = None)
   \<and> (findStartMarker bs = None \<longrightarrow> decodePartial bs = None)
   \<and> (findStartMarker cs = Some i \<and> N = bitsToNumber (slice cs (i + 8) (i + 16))
        \<and> (length cs < i + 16 \<or> N = 0 \<or> 200 < N)
      \<longrightarrow> decodePartial cs = None)
   \<and> (32 \<le> length fs \<and> findStartMarker fs = Some j \<and> j + 16 \<le> length fs
        \<and> M = bitsToNumber (slice fs (j + 8) (j + 16)) \<and> M \<noteq> 0 \<and> M \<le> 200
        \<and> data = Uint8Array_from
                    (map (\<lambda>k. bitsToNumber (slice fs (j + 16 + 8 * k) (j + 24 + 8 * k)))
                       [0..<min M ((length fs - (j + 16)) div 8)])
      \<longrightarrow> (\<exists>n t. n \<le> length data \<and> decodePartial fs = Some t
                 \<and> TextDecoder_decode (take n data) = Some t
                 \<and> (\<forall>n'. n < n' \<and> n' \<le> length data
                       \<longrightarrow> TextDecoder_decode (take n' data) = None)))"
proof -
  have 1: "length as < 32 \<longrightarrow> decodePartial as = None"
    by (simp add: decodePartial_def)
  have 2: "findStartMarker bs = None \<longrightarrow> decodePartial bs = None"
    by (simp add: decodePartial_def)
  have 3: "decodePartial cs = None"
    if m: "findStartMarker cs = Some i" and N: "N = bitsToNumber (slice cs (i + 8) (i + 16))"
      and bad: "length cs < i + 16 \<or> N = 0 \<or> 200 < N"
  proof -
    have N': "N = bitsToNumber (slice cs (i + 8) (i + 8 + 8))"
      using N by (simp add: add.assoc)
    show ?thesis
      using decodePartial_at [OF m refl N' refl] bad by (auto simp: ac_simps)
  qed
  have 4: "\<exists>n t. n \<le> length data \<and> decodePartial fs = Some t
                 \<and> TextDecoder_decode (take n data) = Some t
                 \<and> (\<forall>n'. n < n' \<and> n' \<le> length data
                       \<longrightarrow> TextDecoder_decode (take n' data) = None)"
    if long: "32 \<le> length fs" and m: "findStartMarker fs = Some j"
      and l: "j + 16 \<le> length fs"
      and M: "M = bitsToNumber (slice fs (j + 8) (j + 16))" and M0: "M \<noteq> 0" and M200: "M \<le> 200"
      and d: "data = Uint8Array_from
                    (map (\<lambda>k. bitsToNumber (slice fs (j + 16 + 8 * k) (j + 24 + 8 * k)))
                       [0..<min M ((length fs - (j + 16)) div 8)])"
  proof -
    have M': "M = bitsToNumber (slice fs (j + 8) (j + 8 + 8))"
      using M by (simp add: add.assoc)
    have d': "data = Uint8Array_from (availableBytes fs (j + 8 + 8) M)"
      using d by (simp add: availableBytes_def ac_simps)
    have "decodePartial fs = Some (utf8_preview data (length data))"
      using decodePartial_at [OF m refl M' d'] long l M0 M200 by (auto simp: ac_simps)
    then show ?thesis
      using utf8_preview_longest [of "length data" data] by blast
  qed
  from 1 2 3 4 show ?thesis by blast
qed

theorem decodePartial_preview_witness:
  "decodePartial [] = None
   \<and> decodePartial (replicate 32 0) = None
   \<and> decodePartial (PREAMBLE @ START_MARKER @ replicate 16 0) = None
   \<and> decodePartial (PREAMBLE @ START_MARKER @ [0, 0, 0, 0, 0, 1, 0, 0, 0, 1, 0, 0, 1, 0, 0, 0,
                        1, 1, 1, 0, 0, 0, 1, 1, 1, 0, 0, 0, 0, 0, 0, 1]) = Some [0x48]"
proof -
  let ?fs = "PREAMBLE @ START_MARKER @ [0, 0, 0, 0, 0, 1, 0, 0, 0, 1, 0, 0, 1, 0, 0, 0,
               1, 1, 1, 0, 0, 0, 1, 1, 1, 0, 0, 0, 0, 0, 0, 1]"
  let ?cs = "PREAMBLE @ START_MARKER @ replicate 16 0"
  let ?data = "[0x48, 0xE3, 0x81] :: Uint8Array"
  note T = decodePartial_preview [where as = "[]" and bs = "replicate 32 0" and cs = ?cs
      and i = 8 and N = 0 and fs = ?fs and j = 8 and M = 4 and data = ?data]
  have a: "decodePartial [] = None"
    by (rule T [THEN conjunct1, THEN mp]) simp
  have "findStartMarker (replicate 32 0) = None" by code_simp
  then have b: "decodePartial (replicate 32 0) = None"
    by (rule T [THEN conjunct2, THEN conjunct1, THEN mp])
  have "findStartMarker ?cs = Some 8" "0 = bitsToNumber (slice ?cs (8 + 8) (8 + 16))"
    by code_simp+
  then have c: "decodePartial ?cs = None"
    by (intro T [THEN conjunct2, THEN conjunct2, THEN conjunct1, THEN mp]) simp
  have h1: "32 \<le> length ?fs" "8 + 16 \<le> length ?fs"
    by (simp_all add: PREAMBLE_def START_MARKER_def)
  have h2: "findStartMarker ?fs = Some 8" "4 = bitsToNumber (slice ?fs (8 + 8) (8 + 16))"
    by code_simp+
  have h3: "?data = Uint8Array_from
                    (map (\<lambda>k. bitsToNumber (slice ?fs (8 + 16 + 8 * k) (8 + 24 + 8 * k)))
                       [0..<min 4 ((length ?fs - (8 + 16)) div 8)])"
    by code_simp
  obtain n t where n: "n \<le> length ?data" and t: "decodePartial ?fs = Some t"
    and dec: "TextDecoder_decode (take n ?data) = Some t"
    and longest: "\<forall>n'. n < n' \<and> n' \<le> length ?data \<longrightarrow> TextDecoder_decode (take n' ?data) = None"
    using T [THEN conjunct2, THEN conjunct2, THEN conjunct2, THEN mp] h1 h2 h3 by auto
  have d1: "TextDecoder_decode (take 1 ?data) = Some [0x48]"
    by (simp add: TextDecoder_decode_def utf8_decode_def utf8_initial_def utf16_units_def)
  have d2: "TextDecoder_decode (take 2 ?data) = None"
    by (simp add: TextDecoder_decode_def utf8_decode_def utf8_initial_def utf16_units_def)
  have d3: "TextDecoder_decode (take 3 ?data) = None"
    by (simp add: TextDecoder_decode_def utf8_decode_def utf8_initial_def utf16_units_def)
  have "n \<le> 3" using n by simp
  then consider "n = 0" | "n = 1" | "n = 2" | "n = 3" by linarith
  then have "t = [0x48]"
  proof cases
    case 1
    then have "0 < (1::nat) \<and> (1::nat) \<le> length ?data" by simp
    then have "TextDecoder_decode (take 1 ?data) = None" using longest 1 by blast
    then show ?thesis using d1 by simp
  next
    case 2
    then show ?thesis using dec d1 by simp
  next
    case 3
    then show ?thesis using dec d2 by simp
  next
    case 4
    then show ?thesis using dec d3 by simp
  qed
  with a b c t show ?thesis by simp
qed

end
